theory Spec2Isabelle
  imports Main "HOL-Library.Word"
begin

section \<open>C strings\<close>

text \<open>
  A C string (\<open>char *\<close> to a NUL-terminated buffer) is modelled by the list of its bytes
  before the terminator. \<open>strcmp\<close> is the C library's comparison: it compares the bytes as
  unsigned chars and returns a negative number, zero or a positive number; the model
  returns \<open>-1\<close>, \<open>0\<close> or \<open>1\<close>.
\<close>

fun strcmp :: "string \<Rightarrow> string \<Rightarrow> int" where
  "strcmp [] [] = 0"
| "strcmp [] (y # ys) = - 1"
| "strcmp (x # xs) [] = 1"
| "strcmp (x # xs) (y # ys) =
     (if x = y then strcmp xs ys
      else if (of_char x :: nat) < of_char y then - 1 else 1)"

section \<open>filter.c: standard parameter names\<close>

text \<open>
  \<^verbatim>\<open>int filter_standard_parameter(char *name)\<close>: returns 1 when \<open>strcmp\<close> finds the name
  equal to "type" or to "module", 0 otherwise.
\<close>

definition filter_standard_parameter :: "string \<Rightarrow> int" where
  "filter_standard_parameter name =
     (if strcmp name ''type'' = 0 \<or> strcmp name ''module'' = 0 then 1 else 0)"

section \<open>cachefilter.h: configuration defaults\<close>

text \<open>
  The macros of cachefilter.h. \<open>UINT32_MAX\<close> is the constant of \<open>stdint.h\<close>. The fields of
  \<open>CACHE_CONFIG\<close> that take these defaults (\<open>max_resultset_rows\<close>, \<open>max_resultset_size\<close>,
  \<open>ttl\<close>) are \<open>uint32_t\<close>.
\<close>

definition UINT32_MAX :: "32 word" where
  "UINT32_MAX = 4294967295"

definition CACHE_DEFAULT_MAX_RESULTSET_ROWS :: "32 word" where
  "CACHE_DEFAULT_MAX_RESULTSET_ROWS = UINT32_MAX"

definition CACHE_DEFAULT_MAX_RESULTSET_SIZE :: "32 word" where
  "CACHE_DEFAULT_MAX_RESULTSET_SIZE = 64 * 1024"

definition CACHE_DEFAULT_TTL :: "32 word" where
  "CACHE_DEFAULT_TTL = 10"

section \<open>Memory model\<close>

text \<open>
  Objects live in typed stores that map an address to the object stored there. A pointer
  is an \<open>addr option\<close>: \<open>None\<close> is \<open>NULL\<close>. Reading through a pointer that no store
  maps, reading an array outside its allocation and \<open>abort()\<close> end the run with an
  \<open>error\<close>; a loop that never ends has no result at all (\<open>None\<close> of the outer option).
\<close>

type_synonym addr = nat

datatype error = InvalidPointer | OutOfBounds | Aborted

text \<open>The C type \<open>int\<close>: 32 bits, read as two's complement by \<open>sint\<close>; arithmetic wraps around.\<close>

type_synonym c_int = "32 word"

text \<open>
  \<open>size_t\<close> and the size of a pointer on the 64-bit platforms the program is built for.
\<close>

type_synonym size_t = "64 word"

definition sizeof_ptr :: size_t where
  "sizeof_ptr = 8"

text \<open>
  A \<open>NULL\<close>-terminated array of pointers (\<open>char **options\<close>,
  \<open>FILTER_PARAMETER **parameters\<close>) is the list of its allocated slots; a slot holds
  \<open>None\<close> for \<open>NULL\<close> or the object pointed to.
\<close>

definition array_get :: "'a list \<Rightarrow> c_int \<Rightarrow> error + 'a" where
  "array_get arr i =
     (if 0 \<le> sint i \<and> nat (sint i) < length arr then Inr (arr ! nat (sint i))
      else Inl OutOfBounds)"

definition array_set :: "'a list \<Rightarrow> c_int \<Rightarrow> 'a \<Rightarrow> error + 'a list" where
  "array_set arr i v =
     (if 0 \<le> sint i \<and> nat (sint i) < length arr then Inr (arr[nat (sint i) := v])
      else Inl OutOfBounds)"

lemma sint_succ: "sint (i :: c_int) < 2147483647 \<Longrightarrow> sint (i + 1) = sint i + 1"
  using sint_ge [of i]
  by (simp add: sint_word_ariths signed_take_bit_int_eq_self)

lemma sint_succ_wrap: "sint (i :: c_int) = 2147483647 \<Longrightarrow> sint (i + 1) < 0"
  by (simp add: sint_word_ariths)

text \<open>
  The loop \<^verbatim>\<open>for (i = 0; arr[i]; i++)\<close>, started at \<open>i\<close>: the index of the first
  \<open>NULL\<close>. It stops with an error when it leaves the array before it meets one.
\<close>

function scan_to_null :: "'a option list \<Rightarrow> c_int \<Rightarrow> error + c_int" where
  "scan_to_null arr i =
     (if \<not> (0 \<le> sint i \<and> nat (sint i) < length arr) then Inl OutOfBounds
      else if arr ! nat (sint i) = None then Inr i
      else scan_to_null arr (i + 1))"
  by pat_completeness auto
termination
proof (relation "measure (\<lambda>(arr, i). if sint i < 0 then 0 else Suc (length arr - nat (sint i)))")
  show "wf (measure (\<lambda>(arr :: 'a option list, i :: c_int).
              if sint i < 0 then 0 else Suc (length arr - nat (sint i))))"
    by simp
next
  fix arr :: "'a option list" and i :: c_int
  assume "\<not> \<not> (0 \<le> sint i \<and> nat (sint i) < length arr)"
  then have inb: "0 \<le> sint i" "nat (sint i) < length arr" by simp_all
  show "((arr, i + 1), (arr, i))
          \<in> measure (\<lambda>(arr, i). if sint i < 0 then 0 else Suc (length arr - nat (sint i)))"
  proof (cases "sint i = 2147483647")
    case True
    then show ?thesis using sint_succ_wrap [of i] by simp
  next
    case False
    with sint_less [of i] have "sint i < 2147483647" by simp
    then show ?thesis using inb sint_succ [of i] by auto
  qed
qed

declare scan_to_null.simps [simp del]

text \<open>
  Modelled from the spec: the allocation macros of maxscale/alloc.h, which is not among
  the sources. By the spec an allocation can fail ("name/module cannot be copied or the
  definition cannot be allocated") and then yields no value. \<open>MXS_STRDUP\<close> gives a copy of
  the string, or \<open>NULL\<close> when the allocation fails. Whether an allocation succeeds is
  decided outside the program; it is an argument of the model.
\<close>

definition MXS_STRDUP :: "bool \<Rightarrow> string \<Rightarrow> string option" where
  "MXS_STRDUP ok s = (if ok then Some s else None)"

text \<open>
  Modelled from the spec: \<open>MXS_CALLOC\<close> and \<open>MXS_REALLOC\<close> of the same header, with the
  meaning of the C library's \<open>calloc\<close> and \<open>realloc\<close> when they succeed.
  \<open>MXS_CALLOC(n, size)\<close> for an array of \<open>n\<close> pointers: \<open>n\<close> slots, all zero.
  \<open>MXS_REALLOC(arr, bytes)\<close>: the array cut or extended to \<open>bytes\<close> bytes; the slots
  it gains hold indeterminate values, here \<open>junk\<close>.
\<close>

definition calloc_array :: "nat \<Rightarrow> 'a option list" where
  "calloc_array n = replicate n None"

definition realloc_array :: "'a \<Rightarrow> 'a list \<Rightarrow> size_t \<Rightarrow> 'a list" where
  "realloc_array junk arr bytes =
     (let n = unat bytes div unat sizeof_ptr in take n arr @ replicate (n - length arr) junk)"

section \<open>filter.h: the data model\<close>

text \<open>\<open>FILTER_PARAMETER\<close>: a name and a value.\<close>

record FILTER_PARAMETER =
  p_name :: string
  p_value :: string

text \<open>
  What the program calls outside itself, in order. The trace is not a variable of the
  program: the model records each call to the module loader and to a module's entry point
  so that a property can say which calls were made.
\<close>

datatype call =
    Call_load_module string
  | Call_createInstance string "string option list option" "FILTER_PARAMETER option list option"
  | Call_newSession "addr option" "addr option"
  | Call_setDownstream "addr option" "addr option" "addr option"
  | Call_setUpstream "addr option" "addr option" "addr option"

text \<open>
  \<open>FILTER_OBJECT\<close>, the table of a module's entry points. The entry points that filter.c
  calls are functions on the state \<open>'w\<close> of the world outside filter.c (the module's own
  data); \<open>createInstance\<close> and \<open>newSession\<close> return a pointer. \<open>setUpstream\<close> and
  \<open>clientReply\<close> may be \<open>NULL\<close> and filter.c tests them. Entry points that filter.c only
  stores or never touches are kept as the address of the function.
\<close>

record 'w FILTER_OBJECT =
  createInstance :: "string \<Rightarrow> string option list option \<Rightarrow> FILTER_PARAMETER option list option
                       \<Rightarrow> 'w \<Rightarrow> addr option \<times> 'w"
  newSession :: "addr option \<Rightarrow> addr option \<Rightarrow> 'w \<Rightarrow> addr option \<times> 'w"
  closeSession :: "addr option"
  freeSession :: "addr option"
  setDownstream :: "addr option \<Rightarrow> addr option \<Rightarrow> addr option \<Rightarrow> 'w \<Rightarrow> 'w"
  setUpstream :: "(addr option \<Rightarrow> addr option \<Rightarrow> addr option \<Rightarrow> 'w \<Rightarrow> 'w) option"
  routeQuery :: "addr option"
  clientReply :: "addr option"
  diagnostics :: "addr option"
  getCapabilities :: "addr option"

text \<open>
  \<open>FILTER_DEF\<close>. The fields are those of the struct, prefixed with \<open>fd_\<close>; the spinlock
  is left out (the model runs one call at a time).
\<close>

record 'w FILTER_DEF =
  fd_name :: string
  fd_module :: string
  fd_options :: "string option list option"
  fd_parameters :: "FILTER_PARAMETER option list option"
  fd_filter :: "addr option"
  fd_obj :: "'w FILTER_OBJECT option"
  fd_next :: "addr option"

text \<open>
  Modelled from the spec: \<open>DOWNSTREAM\<close> and \<open>UPSTREAM\<close>, declared in session.h, which is
  not among the sources. By the spec a chain node holds "the shared instance pointer, the
  per-session handle returned by \<open>newSession\<close>, and the bound entry-point function
  reference (\<open>routeQuery\<close> for downstream, \<open>clientReply\<close> for upstream)"; these are the
  fields filter.c writes.
\<close>

record DOWNSTREAM =
  ds_instance :: "addr option"
  ds_session :: "addr option"
  ds_routeQuery :: "addr option"

record UPSTREAM =
  us_instance :: "addr option"
  us_session :: "addr option"
  us_clientReply :: "addr option"

text \<open>
  The state: the global \<open>allFilters\<close>, the stores of the three kinds of object, the
  world outside and the trace of calls.
\<close>

record 'w state =
  allFilters :: "addr option"
  defs :: "addr \<rightharpoonup> 'w FILTER_DEF"
  downstreams :: "addr \<rightharpoonup> DOWNSTREAM"
  upstreams :: "addr \<rightharpoonup> UPSTREAM"
  world :: 'w
  trace :: "call list"

section \<open>filter.c: the registry\<close>

text \<open>
  \<^verbatim>\<open>FILTER_DEF *filter_alloc(char *name, char *module)\<close>. The three allocations
  (the copy of the name, the copy of the module, the definition) are made first; their
  outcomes are the arguments \<open>name_ok\<close>, \<open>module_ok\<close> and \<open>mem\<close>, the address
  \<open>MXS_MALLOC\<close> returns or \<open>NULL\<close>. When one of them failed, the others are released
  and the result is \<open>NULL\<close>. Otherwise the definition is initialised and linked in front
  of \<open>allFilters\<close>.
\<close>

definition filter_alloc ::
  "bool \<Rightarrow> bool \<Rightarrow> addr option \<Rightarrow> string \<Rightarrow> string \<Rightarrow> 'w state \<Rightarrow> addr option \<times> 'w state" where
  "filter_alloc name_ok module_ok mem name module s =
     (case (MXS_STRDUP name_ok name, MXS_STRDUP module_ok module, mem) of
        (Some name', Some module', Some filter') \<Rightarrow>
          (Some filter',
           s\<lparr>defs := (defs s)(filter' \<mapsto>
                  \<lparr>fd_name = name', fd_module = module', fd_options = None,
                   fd_parameters = None, fd_filter = None, fd_obj = None,
                   fd_next = allFilters s\<rparr>),
             allFilters := Some filter'\<rparr>)
      | _ \<Rightarrow> (None, s))"

text \<open>
  The loop of \<open>filter_find\<close>: walk from \<open>filter\<close> along \<open>next\<close> to the first definition
  whose name compares equal, or to \<open>NULL\<close>.
\<close>

partial_function (option) filter_find_loop ::
  "(addr \<rightharpoonup> 'w FILTER_DEF) \<Rightarrow> string \<Rightarrow> addr option \<Rightarrow> (error + addr option) option" where
  "filter_find_loop h name filter' =
     (case filter' of
        None \<Rightarrow> Some (Inr None)
      | Some a \<Rightarrow>
          (case h a of
             None \<Rightarrow> Some (Inl InvalidPointer)
           | Some d \<Rightarrow>
               if strcmp (fd_name d) name = 0 then Some (Inr (Some a))
               else filter_find_loop h name (fd_next d)))"

declare filter_find_loop.simps [code]

definition filter_find :: "string \<Rightarrow> 'w state \<Rightarrow> (error + addr option) option" where
  "filter_find name s = filter_find_loop (defs s) name (allFilters s)"

text \<open>The loop of \<open>filter_count_filters\<close>, with the counter \<open>i\<close> of type \<open>int\<close>.\<close>

partial_function (option) filter_count_loop ::
  "(addr \<rightharpoonup> 'w FILTER_DEF) \<Rightarrow> addr option \<Rightarrow> c_int \<Rightarrow> (error + c_int) option" where
  "filter_count_loop h filter' i =
     (case filter' of
        None \<Rightarrow> Some (Inr i)
      | Some a \<Rightarrow>
          (case h a of
             None \<Rightarrow> Some (Inl InvalidPointer)
           | Some d \<Rightarrow> filter_count_loop h (fd_next d) (i + 1)))"

declare filter_count_loop.simps [code]

definition filter_count_filters :: "'w state \<Rightarrow> (error + c_int) option" where
  "filter_count_filters s = filter_count_loop (defs s) (allFilters s) 0"

text \<open>
  \<open>filter_free\<close>, first part: take the definition out of the list. The loop
  \<^verbatim>\<open>while (ptr && ptr->next != filter) ptr = ptr->next;\<close> returns the
  predecessor of \<open>filter\<close>, or \<open>NULL\<close> when the list ends first.
\<close>

partial_function (option) filter_free_loop ::
  "(addr \<rightharpoonup> 'w FILTER_DEF) \<Rightarrow> addr \<Rightarrow> addr option \<Rightarrow> (error + addr option) option" where
  "filter_free_loop h filter' ptr =
     (case ptr of
        None \<Rightarrow> Some (Inr None)
      | Some a \<Rightarrow>
          (case h a of
             None \<Rightarrow> Some (Inl InvalidPointer)
           | Some d \<Rightarrow>
               if fd_next d \<noteq> Some filter' then filter_free_loop h filter' (fd_next d)
               else Some (Inr (Some a))))"

declare filter_free_loop.simps [code]

definition filter_unlink :: "addr \<Rightarrow> 'w state \<Rightarrow> (error + 'w state) option" where
  "filter_unlink filter' s =
     (if allFilters s = Some filter' then
        (case defs s filter' of
           None \<Rightarrow> Some (Inl InvalidPointer)
         | Some d \<Rightarrow> Some (Inr (s\<lparr>allFilters := fd_next d\<rparr>)))
      else
        (case filter_free_loop (defs s) filter' (allFilters s) of
           None \<Rightarrow> None
         | Some (Inl e) \<Rightarrow> Some (Inl e)
         | Some (Inr None) \<Rightarrow> Some (Inr s)
         | Some (Inr (Some ptr)) \<Rightarrow>
             (case (defs s filter', defs s ptr) of
                (Some d, Some dp) \<Rightarrow> Some (Inr (s\<lparr>defs := (defs s)(ptr \<mapsto> dp\<lparr>fd_next := fd_next d\<rparr>)\<rparr>))
              | _ \<Rightarrow> Some (Inl InvalidPointer))))"

text \<open>
  \<open>filter_free\<close>, second part: release the strings, the options up to the first \<open>NULL\<close>,
  the parameters (\<open>filter_free_parameters\<close>, up to the first \<open>NULL\<close>) and the definition.
  The strings and arrays are part of the definition's value here, so releasing them is
  taking the definition out of the store; what remains of the two loops is that they must
  meet a \<open>NULL\<close> inside the array.
\<close>

definition free_options :: "'w FILTER_DEF \<Rightarrow> error + unit" where
  "free_options d =
     (case fd_options d of
        None \<Rightarrow> Inr ()
      | Some arr \<Rightarrow> (case scan_to_null arr 0 of Inl e \<Rightarrow> Inl e | Inr i \<Rightarrow> Inr ()))"

definition filter_free_parameters :: "'w FILTER_DEF \<Rightarrow> error + unit" where
  "filter_free_parameters d =
     (case fd_parameters d of
        None \<Rightarrow> Inr ()
      | Some arr \<Rightarrow> (case scan_to_null arr 0 of Inl e \<Rightarrow> Inl e | Inr i \<Rightarrow> Inr ()))"

definition filter_free :: "addr option \<Rightarrow> 'w state \<Rightarrow> (error + 'w state) option" where
  "filter_free filter' s =
     (case filter' of
        None \<Rightarrow> Some (Inr s)
      | Some f \<Rightarrow>
          (case filter_unlink f s of
             None \<Rightarrow> None
           | Some (Inl e) \<Rightarrow> Some (Inl e)
           | Some (Inr s1) \<Rightarrow>
               (case defs s1 f of
                  None \<Rightarrow> Some (Inl InvalidPointer)
                | Some d \<Rightarrow>
                    (case free_options d of
                       Inl e \<Rightarrow> Some (Inl e)
                     | Inr u \<Rightarrow>
                         (case filter_free_parameters d of
                            Inl e \<Rightarrow> Some (Inl e)
                          | Inr u' \<Rightarrow> Some (Inr (s1\<lparr>defs := (defs s1)(f := None)\<rparr>)))))))"

section \<open>filter.c: options\<close>

text \<open>
  Modelled from the spec: the macros \<open>MXS_STRDUP_A\<close> and \<open>MXS_ABORT_IF_NULL\<close> of
  maxscale/alloc.h, which is not among the sources. The spec has allocation failure
  "treated as fatal/unrecoverable at the point of occurrence (abort)": \<open>MXS_STRDUP_A\<close>
  returns the copy or aborts, \<open>MXS_ABORT_IF_NULL\<close> aborts on \<open>NULL\<close>.
\<close>

definition MXS_STRDUP_A :: "bool \<Rightarrow> string \<Rightarrow> error + string" where
  "MXS_STRDUP_A ok s = (if ok then Inr s else Inl Aborted)"

definition MXS_ABORT_IF_NULL :: "'a option \<Rightarrow> error + 'a" where
  "MXS_ABORT_IF_NULL p = (case p of None \<Rightarrow> Inl Aborted | Some v \<Rightarrow> Inr v)"

text \<open>
  \<^verbatim>\<open>void filterAddOption(FILTER_DEF *filter, char *option)\<close>. \<open>arr_ok\<close> is the outcome
  of the \<open>MXS_CALLOC\<close> or \<open>MXS_REALLOC\<close> of the array, \<open>str_ok\<close> that of the copy of the
  option, \<open>junk\<close> what the slots gained by \<open>MXS_REALLOC\<close> hold. The size handed to
  \<open>MXS_REALLOC\<close> is \<^verbatim>\<open>(i + 2) * sizeof(char *)\<close>: the sum is computed in \<open>int\<close>, converted
  to \<open>size_t\<close> (with its sign) and multiplied there. The second branch checks the stored
  copy once more with \<open>MXS_ABORT_IF_NULL\<close>, as the source does.
\<close>

definition filterAddOption ::
  "bool \<Rightarrow> bool \<Rightarrow> string option \<Rightarrow> addr option \<Rightarrow> string \<Rightarrow> 'w state \<Rightarrow> error + 'w state" where
  "filterAddOption arr_ok str_ok junk filter' option s =
     (case filter' of
        None \<Rightarrow> Inl InvalidPointer
      | Some f \<Rightarrow>
     (case defs s f of
        None \<Rightarrow> Inl InvalidPointer
      | Some d \<Rightarrow>
     (case fd_options d of
        None \<Rightarrow>
          (case MXS_ABORT_IF_NULL (if arr_ok then Some (calloc_array 2) else None) of
             Inl e \<Rightarrow> Inl e
           | Inr arr0 \<Rightarrow>
          (case MXS_STRDUP_A str_ok option of
             Inl e \<Rightarrow> Inl e
           | Inr copy \<Rightarrow>
          (case array_set arr0 0 (Some copy) of
             Inl e \<Rightarrow> Inl e
           | Inr arr1 \<Rightarrow>
          (case array_set arr1 1 None of
             Inl e \<Rightarrow> Inl e
           | Inr arr2 \<Rightarrow> Inr (s\<lparr>defs := (defs s)(f \<mapsto> d\<lparr>fd_options := Some arr2\<rparr>)\<rparr>)))))
      | Some arr \<Rightarrow>
          (case scan_to_null arr 0 of
             Inl e \<Rightarrow> Inl e
           | Inr i \<Rightarrow>
          (case MXS_ABORT_IF_NULL
                  (if arr_ok then Some (realloc_array junk arr (scast (i + 2) * sizeof_ptr))
                   else None) of
             Inl e \<Rightarrow> Inl e
           | Inr arr0 \<Rightarrow>
          (case MXS_STRDUP_A str_ok option of
             Inl e \<Rightarrow> Inl e
           | Inr copy \<Rightarrow>
          (case array_set arr0 i (Some copy) of
             Inl e \<Rightarrow> Inl e
           | Inr arr1 \<Rightarrow>
          (case array_get arr1 i of
             Inl e \<Rightarrow> Inl e
           | Inr p \<Rightarrow>
          (case MXS_ABORT_IF_NULL p of
             Inl e \<Rightarrow> Inl e
           | Inr v \<Rightarrow>
          (case array_set arr1 (i + 1) None of
             Inl e \<Rightarrow> Inl e
           | Inr arr2 \<Rightarrow> Inr (s\<lparr>defs := (defs s)(f \<mapsto> d\<lparr>fd_options := Some arr2\<rparr>)\<rparr>)))))))))))"

section \<open>filter.c: loading a module\<close>

text \<open>
  \<^verbatim>\<open>bool filter_load(FILTER_DEF* filter)\<close>. The module loader (\<open>load_module\<close> of
  modules.h, called with \<open>MODULE_FILTER\<close>) is outside filter.c and is an argument of the
  model: from the module's name and the world it gives the module's table, or \<open>NULL\<close>,
  and the world after the call. \<open>filter->obj\<close> keeps the table.
\<close>

definition filter_load ::
  "(string \<Rightarrow> 'w \<Rightarrow> 'w FILTER_OBJECT option \<times> 'w) \<Rightarrow> addr option \<Rightarrow> 'w state
     \<Rightarrow> (error + bool) \<times> 'w state" where
  "filter_load load_module filter' s =
     (case filter' of
        None \<Rightarrow> (Inr False, s)
      | Some f \<Rightarrow>
     (case defs s f of
        None \<Rightarrow> (Inl InvalidPointer, s)
      | Some d \<Rightarrow>
          if fd_filter d \<noteq> None then (Inr True, s)
          else
            let (d1, s1) =
                  (if fd_obj d = None then
                     let (ob, w) = load_module (fd_module d) (world s);
                         d' = d\<lparr>fd_obj := ob\<rparr>
                     in (d', s\<lparr>defs := (defs s)(f \<mapsto> d'), world := w,
                              trace := trace s @ [Call_load_module (fd_module d)]\<rparr>)
                   else (d, s))
            in
              (case fd_obj d1 of
                 None \<Rightarrow> (Inr False, s1)
               | Some ob \<Rightarrow>
                   let (inst, w) = createInstance ob (fd_name d1) (fd_options d1)
                                     (fd_parameters d1) (world s1);
                       d2 = d1\<lparr>fd_filter := inst\<rparr>
                   in (Inr (inst \<noteq> None),
                       s1\<lparr>defs := (defs s1)(f \<mapsto> d2), world := w,
                          trace := trace s1 @ [Call_createInstance (fd_name d1) (fd_options d1)
                                                (fd_parameters d1)]\<rparr>))))"

section \<open>filter.c: building the chains of a session\<close>

text \<open>
  \<^verbatim>\<open>DOWNSTREAM *filterApply(FILTER_DEF *filter, SESSION *session, DOWNSTREAM *downstream)\<close>.
  \<open>mem\<close> is what \<open>MXS_CALLOC\<close> returns for the node. The node is in the store from its
  allocation on and leaves it with \<open>MXS_FREE\<close>.
\<close>

definition filterApply ::
  "addr option \<Rightarrow> addr option \<Rightarrow> addr option \<Rightarrow> addr option \<Rightarrow> 'w state
     \<Rightarrow> (error + addr option) \<times> 'w state" where
  "filterApply mem filter' session downstream s =
     (case mem of
        None \<Rightarrow> (Inr None, s)
      | Some me \<Rightarrow>
     (case filter' of
        None \<Rightarrow> (Inl InvalidPointer, s)
      | Some f \<Rightarrow>
     (case defs s f of
        None \<Rightarrow> (Inl InvalidPointer, s)
      | Some d \<Rightarrow>
     (case fd_obj d of
        None \<Rightarrow> (Inl InvalidPointer, s)
      | Some ob \<Rightarrow>
          let node = \<lparr>ds_instance = fd_filter d, ds_session = None, ds_routeQuery = routeQuery ob\<rparr>;
              (fsession, w) = newSession ob (ds_instance node) session (world s);
              node' = node\<lparr>ds_session := fsession\<rparr>;
              s1 = s\<lparr>downstreams := (downstreams s)(me \<mapsto> node'), world := w,
                     trace := trace s @ [Call_newSession (ds_instance node) session]\<rparr>
          in
            if ds_session node' = None then
              (Inr None, s1\<lparr>downstreams := (downstreams s1)(me := None)\<rparr>)
            else
              (Inr (Some me),
               s1\<lparr>world := setDownstream ob (ds_instance node') (ds_session node') downstream w,
                  trace := trace s1 @ [Call_setDownstream (ds_instance node') (ds_session node')
                                        downstream]\<rparr>)))))"

text \<open>
  \<^verbatim>\<open>UPSTREAM *filterUpstream(FILTER_DEF *filter, void *fsession, UPSTREAM *upstream)\<close>.
  \<open>mem\<close> is what \<open>MXS_CALLOC\<close> returns if it is called. The local \<open>me\<close> starts as
  \<open>NULL\<close> and is returned at the end.
\<close>

definition filterUpstream ::
  "addr option \<Rightarrow> addr option \<Rightarrow> addr option \<Rightarrow> addr option \<Rightarrow> 'w state
     \<Rightarrow> (error + addr option) \<times> 'w state" where
  "filterUpstream mem filter' fsession upstream s =
     (case filter' of
        None \<Rightarrow> (Inl InvalidPointer, s)
      | Some f \<Rightarrow>
     (case defs s f of
        None \<Rightarrow> (Inl InvalidPointer, s)
      | Some d \<Rightarrow>
     (case fd_obj d of
        None \<Rightarrow> (Inl InvalidPointer, s)
      | Some ob \<Rightarrow>
     (case setUpstream ob of
        None \<Rightarrow> (Inr upstream, s)
      | Some set_upstream \<Rightarrow>
          if clientReply ob \<noteq> None then
            (case mem of
               None \<Rightarrow> (Inr None, s)
             | Some me \<Rightarrow>
                 let node = \<lparr>us_instance = fd_filter d, us_session = fsession,
                             us_clientReply = clientReply ob\<rparr>
                 in (Inr (Some me),
                     s\<lparr>upstreams := (upstreams s)(me \<mapsto> node),
                       world := set_upstream (us_instance node) (us_session node) upstream (world s),
                       trace := trace s @ [Call_setUpstream (us_instance node) (us_session node)
                                            upstream]\<rparr>))
          else (Inr None, s)))))"

section \<open>The registry as a list\<close>

text \<open>
  \<open>chain h p as\<close>: in the store \<open>h\<close>, the \<open>next\<close> pointers lead from \<open>p\<close> through exactly
  the addresses \<open>as\<close>, each of them allocated, to \<open>NULL\<close>.
\<close>

fun chain :: "(addr \<rightharpoonup> 'w FILTER_DEF) \<Rightarrow> addr option \<Rightarrow> addr list \<Rightarrow> bool" where
  "chain h p [] = (p = None)"
| "chain h p (a # as) =
     (p = Some a \<and> (case h a of None \<Rightarrow> False | Some d \<Rightarrow> chain h (fd_next d) as))"

text \<open>The definition that \<open>filter_alloc\<close> links in, with \<open>nxt\<close> for its \<open>next\<close> pointer.\<close>

definition new_def :: "string \<Rightarrow> string \<Rightarrow> addr option \<Rightarrow> 'w FILTER_DEF" where
  "new_def name module nxt =
     \<lparr>fd_name = name, fd_module = module, fd_options = None, fd_parameters = None,
      fd_filter = None, fd_obj = None, fd_next = nxt\<rparr>"

section \<open>The options as a list\<close>

text \<open>
  What an option array means: it is \<open>NULL\<close>-terminated when one of its slots holds
  \<open>NULL\<close>, and the options it holds are the strings before the first \<open>NULL\<close>, in order
  (none for a \<open>NULL\<close> array pointer). \<open>options_ok\<close>: the array pointer is \<open>NULL\<close> or the
  array is \<open>NULL\<close>-terminated.
\<close>

definition non_null :: "'a option \<Rightarrow> bool" where
  "non_null p = (p \<noteq> None)"

definition null_terminated :: "'a option list \<Rightarrow> bool" where
  "null_terminated arr = (None \<in> set arr)"

definition option_strings :: "string option list option \<Rightarrow> string list" where
  "option_strings os =
     (case os of None \<Rightarrow> [] | Some arr \<Rightarrow> map the (takeWhile non_null arr))"

definition options_ok :: "'a option list option \<Rightarrow> bool" where
  "options_ok os = (case os of None \<Rightarrow> True | Some arr \<Rightarrow> null_terminated arr)"

section \<open>Scenarios and example inputs\<close>

text \<open>
  Registering a list of filters: one successful \<open>filter_alloc\<close> per entry, in order. An
  entry holds the name, the module and the address \<open>MXS_MALLOC\<close> returns for it.
\<close>

fun register_all :: "(string \<times> string \<times> addr) list \<Rightarrow> 'w state \<Rightarrow> 'w state" where
  "register_all [] s = s"
| "register_all ((name, module, mem) # reqs) s =
     register_all reqs (snd (filter_alloc True True (Some mem) name module s))"

text \<open>The state at start-up, and three filters to register.\<close>

definition init_state :: "nat state" where
  "init_state = \<lparr>allFilters = None, defs = Map.empty, downstreams = Map.empty,
          upstreams = Map.empty, world = 0, trace = []\<rparr>"

definition three_filters :: "(string \<times> string \<times> addr) list" where
  "three_filters = [(''a'', ''m'', 1), (''b'', ''m'', 2), (''c'', ''n'', 3)]"

text \<open>Which calls of a trace are calls of \<open>createInstance\<close>.\<close>

fun is_createInstance :: "call \<Rightarrow> bool" where
  "is_createInstance (Call_createInstance name os ps) = True"
| "is_createInstance c = False"

text \<open>
  A module whose world is the number of calls made into it: \<open>createInstance\<close> returns
  \<open>inst\<close>, \<open>newSession\<close> returns \<open>fsession\<close>, \<open>setUpstream\<close> is there when \<open>up\<close> says so and
  \<open>clientReply\<close> is \<open>reply\<close>. A loader that finds the modules of a table. The state \<open>one_filter\<close>
  with one filter "f" of module "m" at address 1, and that state after a \<open>filter_load\<close>
  that finds the module.
\<close>

definition test_module :: "addr option \<Rightarrow> addr option \<Rightarrow> bool \<Rightarrow> addr option \<Rightarrow> nat FILTER_OBJECT" where
  "test_module inst fsession up reply =
     \<lparr>createInstance = (\<lambda>name os ps w. (inst, Suc w)),
      newSession = (\<lambda>i session w. (fsession, Suc w)),
      closeSession = Some 1001, freeSession = Some 1002,
      setDownstream = (\<lambda>i fs d w. Suc w),
      setUpstream = (if up then Some (\<lambda>i fs u w. Suc w) else None),
      routeQuery = Some 1003, clientReply = reply,
      diagnostics = Some 1004, getCapabilities = Some 1005\<rparr>"

definition test_loader :: "(string \<rightharpoonup> nat FILTER_OBJECT) \<Rightarrow> string \<Rightarrow> nat \<Rightarrow> nat FILTER_OBJECT option \<times> nat" where
  "test_loader mods name w = (mods name, Suc w)"

definition one_filter :: "nat state" where
  "one_filter = snd (filter_alloc True True (Some 1) ''f'' ''m'' init_state)"

definition loaded :: "nat FILTER_OBJECT \<Rightarrow> nat state" where
  "loaded m = snd (filter_load (test_loader [''m'' \<mapsto> m]) (Some 1) one_filter)"

text \<open>
  A sequence of calls of \<open>filterAddOption\<close> on one definition. Each call comes with the
  outcomes of its allocations (array, string), the contents of fresh memory and its
  option; the sequence ends at the first call that does not return.
\<close>

fun add_options ::
  "(bool \<times> bool \<times> string option \<times> string) list \<Rightarrow> addr option \<Rightarrow> 'w state \<Rightarrow> error + 'w state" where
  "add_options [] fp s = Inr s"
| "add_options ((arr_ok, str_ok, junk, option) # calls) fp s =
     (case filterAddOption arr_ok str_ok junk fp option s of
        Inl e \<Rightarrow> Inl e
      | Inr s' \<Rightarrow> add_options calls fp s')"

definition three_options :: "(bool \<times> bool \<times> string option \<times> string) list" where
  "three_options = [(True, True, Some ''?'', ''a''), (True, True, Some ''?'', ''b''),
                    (True, True, None, ''c'')]"

section \<open>Properties\<close>

subsection \<open>String comparison\<close>

lemma strcmp_eq_0_iff: "strcmp a b = 0 \<longleftrightarrow> a = b"
  by (induction a b rule: strcmp.induct) auto

subsection \<open>Standard parameter names\<close>

text \<open>
  Claim C8. \<open>filter_standard_parameter name\<close> returns true (the integer 1) exactly when
  the name is "type" or "module", and false (the integer 0) for every other name.
\<close>

theorem filter_standard_parameter_iff:
  "filter_standard_parameter name = (if name = ''type'' \<or> name = ''module'' then 1 else 0)"
  by (simp add: filter_standard_parameter_def strcmp_eq_0_iff)

theorem filter_standard_parameter_iff_witness:
  "filter_standard_parameter ''type'' = 1 \<and> filter_standard_parameter ''module'' = 1
   \<and> filter_standard_parameter ''ttl'' = 0 \<and> filter_standard_parameter ''Type'' = 0
   \<and> filter_standard_parameter '''' = 0"
  using filter_standard_parameter_iff [of "''type''"] filter_standard_parameter_iff [of "''module''"]
    filter_standard_parameter_iff [of "''ttl''"] filter_standard_parameter_iff [of "''Type''"]
    filter_standard_parameter_iff [of "''''"]
  by simp

subsection \<open>Cache defaults\<close>

text \<open>
  Claim C9. The cache configuration defaults: \<open>max_resultset_size\<close> defaults to 64 KiB
  (65536 bytes), \<open>ttl\<close> to 10 seconds, and \<open>max_resultset_rows\<close> to the largest value a
  32-bit count can hold, so that no 32-bit row count exceeds the default.
\<close>

theorem cache_defaults:
  "unat CACHE_DEFAULT_MAX_RESULTSET_SIZE = 65536
   \<and> unat CACHE_DEFAULT_TTL = 10
   \<and> unat CACHE_DEFAULT_MAX_RESULTSET_ROWS = 2 ^ 32 - 1
   \<and> (\<forall>rows :: 32 word. rows \<le> CACHE_DEFAULT_MAX_RESULTSET_ROWS)"
proof -
  have rows: "CACHE_DEFAULT_MAX_RESULTSET_ROWS = - 1"
    by (simp add: CACHE_DEFAULT_MAX_RESULTSET_ROWS_def UINT32_MAX_def)
  have "unat CACHE_DEFAULT_MAX_RESULTSET_ROWS = 2 ^ 32 - 1"
    by (simp add: CACHE_DEFAULT_MAX_RESULTSET_ROWS_def UINT32_MAX_def)
  moreover have "\<forall>rows :: 32 word. rows \<le> CACHE_DEFAULT_MAX_RESULTSET_ROWS"
    unfolding rows by (simp add: word_n1_ge)
  moreover have "unat CACHE_DEFAULT_MAX_RESULTSET_SIZE = 65536"
    by (simp add: CACHE_DEFAULT_MAX_RESULTSET_SIZE_def)
  moreover have "unat CACHE_DEFAULT_TTL = 10"
    by (simp add: CACHE_DEFAULT_TTL_def)
  ultimately show ?thesis by blast
qed

subsection \<open>Walking the registry\<close>

text \<open>
  On a well-formed registry the three loops of filter.c end, and what they return can be
  read off the list of addresses.
\<close>

lemma chain_count:
  "chain h p as \<Longrightarrow> filter_count_loop h p i = Some (Inr (i + of_nat (length as)))"
proof (induction as arbitrary: p i)
  case Nil
  then show ?case by (simp add: filter_count_loop.simps)
next
  case (Cons a as)
  from Cons.prems obtain d where d: "p = Some a" "h a = Some d" "chain h (fd_next d) as"
    by (auto split: option.splits)
  from Cons.IH [OF d(3), of "i + 1"] d(1,2) show ?case
    by (subst filter_count_loop.simps) (simp add: add.assoc add.commute)
qed

lemma chain_find:
  "chain h p as \<Longrightarrow>
   filter_find_loop h name p = Some (Inr (List.find (\<lambda>a. \<exists>d. h a = Some d \<and> fd_name d = name) as))"
proof (induction as arbitrary: p)
  case Nil
  then show ?case by (simp add: filter_find_loop.simps)
next
  case (Cons a as)
  from Cons.prems obtain d where d: "p = Some a" "h a = Some d" "chain h (fd_next d) as"
    by (auto split: option.splits)
  from Cons.IH [OF d(3)] d(1,2) show ?case
    by (subst filter_find_loop.simps) (simp add: strcmp_eq_0_iff)
qed

lemma chain_dom: "chain h p as \<Longrightarrow> set as \<subseteq> dom h"
  by (induction as arbitrary: p) (auto split: option.splits)

lemma chain_upd_other: "a \<notin> set as \<Longrightarrow> chain (h(a := v)) p as = chain h p as"
  by (induction as arbitrary: p) (auto split: option.splits)

lemma chain_unique: "chain h p as \<Longrightarrow> chain h p bs \<Longrightarrow> as = bs"
proof (induction as arbitrary: p bs)
  case Nil
  then show ?case by (cases bs) auto
next
  case (Cons a as)
  then show ?case by (cases bs) (auto split: option.splits)
qed

lemma chain_suffix: "chain h p (xs @ a # ys) \<Longrightarrow> chain h (Some a) (a # ys)"
proof (induction xs arbitrary: p)
  case Nil
  then show ?case by simp
next
  case (Cons x xs)
  from Cons.prems obtain d where "h x = Some d" "chain h (fd_next d) (xs @ a # ys)"
    by (auto split: option.splits)
  from this(2) show ?case by (rule Cons.IH)
qed

lemma chain_distinct: "chain h p as \<Longrightarrow> distinct as"
proof (induction as arbitrary: p)
  case Nil
  then show ?case by simp
next
  case (Cons a as)
  from Cons.prems obtain d where d: "p = Some a" "h a = Some d" "chain h (fd_next d) as"
    by (auto split: option.splits)
  have "a \<notin> set as"
  proof
    assume "a \<in> set as"
    then obtain xs ys where as: "as = xs @ a # ys" by (auto simp: in_set_conv_decomp)
    with d(3) have "chain h (Some a) (a # ys)" using chain_suffix by fastforce
    moreover from Cons.prems d have "chain h (Some a) (a # as)" by simp
    ultimately have "a # ys = a # as" by (rule chain_unique)
    with as show False by simp
  qed
  with Cons.IH [OF d(3)] show ?case by simp
qed

lemma free_loop_pred:
  "chain h p (xs @ a # f # ys) \<Longrightarrow> distinct (xs @ a # f # ys) \<Longrightarrow>
   filter_free_loop h f p = Some (Inr (Some a))"
proof (induction xs arbitrary: p)
  case Nil
  from Nil.prems(1) obtain da where "p = Some a" "h a = Some da" "chain h (fd_next da) (f # ys)"
    by (auto split: option.splits)
  then show ?case
    by (subst filter_free_loop.simps) simp
next
  case (Cons x xs)
  from Cons.prems(1) obtain dx where dx: "p = Some x" "h x = Some dx"
      "chain h (fd_next dx) (xs @ a # f # ys)"
    by (auto split: option.splits)
  have "fd_next dx \<noteq> Some f"
  proof (cases xs)
    case Nil
    with dx(3) have "fd_next dx = Some a" by simp
    with Cons.prems(2) show ?thesis by auto
  next
    case (Cons y zs)
    with dx(3) have "fd_next dx = Some y" by simp
    with Cons.prems(2) Cons show ?thesis by auto
  qed
  moreover from Cons.prems(2) have "distinct (xs @ a # f # ys)" by simp
  note Cons.IH [OF dx(3) this]
  ultimately show ?case using dx(1,2)
    by (subst filter_free_loop.simps) simp
qed

lemma free_loop_absent:
  "chain h p as \<Longrightarrow> f \<notin> set as \<Longrightarrow> filter_free_loop h f p = Some (Inr None)"
proof (induction as arbitrary: p)
  case Nil
  then show ?case by (simp add: filter_free_loop.simps)
next
  case (Cons a as)
  from Cons.prems(1) obtain d where d: "p = Some a" "h a = Some d" "chain h (fd_next d) as"
    by (auto split: option.splits)
  have "fd_next d \<noteq> Some f"
  proof (cases as)
    case Nil
    with d(3) show ?thesis by simp
  next
    case (Cons y zs)
    with d(3) have "fd_next d = Some y" by simp
    with Cons.prems(2) Cons show ?thesis by auto
  qed
  moreover from Cons.prems(2) have "f \<notin> set as" by simp
  note Cons.IH [OF d(3) this]
  ultimately show ?case using d(1,2)
    by (subst filter_free_loop.simps) simp
qed

lemma chain_unlink:
  "chain h p (xs @ a # f # ys) \<Longrightarrow> distinct (xs @ a # f # ys) \<Longrightarrow>
   h a = Some da \<Longrightarrow> h f = Some df \<Longrightarrow>
   chain (h(a \<mapsto> da\<lparr>fd_next := fd_next df\<rparr>)) p (xs @ a # ys)"
proof (induction xs arbitrary: p)
  case Nil
  from Nil.prems have "p = Some a" "fd_next da = Some f" "chain h (fd_next df) ys"
    by (auto split: option.splits)
  moreover from Nil.prems(2) have "a \<notin> set ys" by simp
  then have "chain (h(a \<mapsto> da\<lparr>fd_next := fd_next df\<rparr>)) (fd_next df) ys = chain h (fd_next df) ys"
    by (rule chain_upd_other)
  ultimately show ?case by (simp del: fun_upd_apply add: fun_upd_same)
next
  case (Cons x xs)
  from Cons.prems(1) obtain dx where dx: "p = Some x" "h x = Some dx"
      "chain h (fd_next dx) (xs @ a # f # ys)"
    by (auto split: option.splits)
  from Cons.prems(2) have "x \<noteq> a" "distinct (xs @ a # f # ys)" by simp_all
  with Cons.IH [OF dx(3) _ Cons.prems(3,4)] dx(1,2) show ?case by simp
qed

subsection \<open>Allocation\<close>

text \<open>What \<open>filter_alloc\<close> returns, and what registering does to the list.\<close>

lemma filter_alloc_ok:
  "filter_alloc True True (Some f) name module s =
     (Some f, s\<lparr>defs := (defs s)(f \<mapsto> new_def name module (allFilters s)), allFilters := Some f\<rparr>)"
  by (simp add: filter_alloc_def MXS_STRDUP_def new_def_def)

lemma filter_alloc_fail:
  "\<not> name_ok \<or> \<not> module_ok \<or> mem = None \<Longrightarrow>
   filter_alloc name_ok module_ok mem name module s = (None, s)"
  by (auto simp: filter_alloc_def MXS_STRDUP_def split: option.splits)

lemma chain_alloc:
  assumes "chain (defs s) (allFilters s) as" and "f \<notin> dom (defs s)"
  shows "chain (defs (snd (filter_alloc True True (Some f) name module s)))
           (allFilters (snd (filter_alloc True True (Some f) name module s))) (f # as)"
proof -
  from assms have "f \<notin> set as" using chain_dom by blast
  then have "chain ((defs s)(f \<mapsto> new_def name module (allFilters s))) (allFilters s) as
             = chain (defs s) (allFilters s) as"
    by (rule chain_upd_other)
  with assms(1) show ?thesis
    by (simp add: filter_alloc_ok new_def_def del: fun_upd_apply add: fun_upd_same)
qed

lemma register_all_chain:
  "chain (defs s) (allFilters s) as \<Longrightarrow> distinct (map (\<lambda>r. snd (snd r)) reqs) \<Longrightarrow>
   \<forall>r \<in> set reqs. snd (snd r) \<notin> dom (defs s) \<Longrightarrow>
   chain (defs (register_all reqs s)) (allFilters (register_all reqs s))
     (rev (map (\<lambda>r. snd (snd r)) reqs) @ as)"
proof (induction reqs arbitrary: s as)
  case Nil
  then show ?case by simp
next
  case (Cons r reqs)
  obtain name module f where r: "r = (name, module, f)" by (cases r)
  let ?s1 = "snd (filter_alloc True True (Some f) name module s)"
  from Cons.prems r have "chain (defs ?s1) (allFilters ?s1) (f # as)"
    by (intro chain_alloc) auto
  moreover from Cons.prems r have "distinct (map (\<lambda>r. snd (snd r)) reqs)" by simp
  moreover from Cons.prems r have "\<forall>r \<in> set reqs. snd (snd r) \<notin> dom (defs ?s1)"
    by (auto simp: filter_alloc_ok)
  ultimately have "chain (defs (register_all reqs ?s1)) (allFilters (register_all reqs ?s1))
     (rev (map (\<lambda>r. snd (snd r)) reqs) @ f # as)"
    by (rule Cons.IH)
  with r show ?case by simp
qed

lemma register_all_defs:
  "distinct (map (\<lambda>r. snd (snd r)) reqs) \<Longrightarrow> (name, module, f) \<in> set reqs \<Longrightarrow>
   \<exists>nxt. defs (register_all reqs s) f = Some (new_def name module nxt)"
proof (induction reqs arbitrary: s)
  case Nil
  then show ?case by simp
next
  case (Cons r reqs)
  obtain name' module' f' where r: "r = (name', module', f')" by (cases r)
  let ?s1 = "snd (filter_alloc True True (Some f') name' module' s)"
  show ?case
  proof (cases "(name, module, f) \<in> set reqs")
    case True
    with Cons.IH [of ?s1] Cons.prems(1) r show ?thesis by simp
  next
    case False
    with Cons.prems(2) r have eq: "name' = name" "module' = module" "f' = f" by auto
    have keep: "f \<notin> snd ` snd ` set reqs \<Longrightarrow> defs (register_all reqs t) f = defs t f" for t :: "'a state"
    proof (induction reqs arbitrary: t)
      case Nil
      then show ?case by simp
    next
      case (Cons q reqs)
      obtain a b c where q: "q = (a, b, c)" by (cases q)
      with Cons.prems have "c \<noteq> f" "f \<notin> snd ` snd ` set reqs" by force+
      with Cons.IH [of "snd (filter_alloc True True (Some c) a b t)"] q show ?case
        by (simp add: filter_alloc_ok)
    qed
    from Cons.prems(1) r eq have "f \<notin> snd ` snd ` set reqs" by (auto simp: image_image)
    from keep [OF this, of ?s1] r eq show ?thesis
      by (auto simp: filter_alloc_ok)
  qed
qed


lemma find_loop_dom_aux:
  assumes "filter_find_loop h name p = Some r"
  shows "\<forall>q. r = Inr (Some q) \<longrightarrow> q \<in> dom h"
  using assms
proof (induction rule: filter_find_loop.raw_induct [rotated 1, consumes 1])
  case (1 find_loop h name p r)
  from "1.hyps" show ?case
    by (auto split: option.splits if_splits dest: "1.IH")
qed

lemma find_loop_dom:
  "filter_find_loop h name p = Some r \<Longrightarrow> r = Inr (Some q) \<Longrightarrow> q \<in> dom h"
  using find_loop_dom_aux by blast

lemma find_loop_frame_aux:
  assumes "filter_find_loop h name p = Some r"
  shows "\<forall>x. r = Inr x \<longrightarrow> f \<notin> dom h \<longrightarrow> filter_find_loop (h(f \<mapsto> d)) name p = Some (Inr x)"
  using assms
proof (induction rule: filter_find_loop.raw_induct [rotated 1, consumes 1])
  case (1 find_loop h name p r)
  show ?case
  proof (intro allI impI)
    fix x
    assume r: "r = Inr x" and fresh: "f \<notin> dom h"
    show "filter_find_loop (h(f \<mapsto> d)) name p = Some (Inr x)"
    proof (cases p)
      case None
      with "1.hyps" r show ?thesis by (simp add: filter_find_loop.simps)
    next
      case (Some a)
      with "1.hyps" r obtain da where da: "h a = Some da"
        by (cases "h a") auto
      with fresh have "a \<noteq> f" by auto
      show ?thesis
      proof (cases "strcmp (fd_name da) name = 0")
        case True
        with Some da "1.hyps" r have "x = Some a" by simp
        moreover have "filter_find_loop (h(f \<mapsto> d)) name (Some a) = Some (Inr (Some a))"
          using da True \<open>a \<noteq> f\<close> by (subst filter_find_loop.simps) simp
        ultimately show ?thesis using Some by simp
      next
        case False
        with Some da "1.hyps" have "find_loop h name (fd_next da) = Some r" by simp
        from "1.IH" [OF this] r fresh
        have "filter_find_loop (h(f \<mapsto> d)) name (fd_next da) = Some (Inr x)" by blast
        with Some da False \<open>a \<noteq> f\<close> show ?thesis
          by (subst filter_find_loop.simps) simp
      qed
    qed
  qed
qed

lemma find_loop_frame:
  "filter_find_loop h name p = Some r \<Longrightarrow> r = Inr x \<Longrightarrow> f \<notin> dom h \<Longrightarrow>
   filter_find_loop (h(f \<mapsto> d)) name p = Some (Inr x)"
  using find_loop_frame_aux by blast

text \<open>
  Claim C5. \<open>filter_alloc\<close> returns \<open>NULL\<close> exactly when the copy of the name, the copy of
  the module or the allocation of the definition fails, and then the state (the registry
  with it) is as before. When all three succeed it returns the new definition, which is
  the head of the registry with the old head as its successor, nothing else in the store
  changes, the definition has the given name and module, no options and no parameters, and
  \<open>filter_find\<close> on the name returns it.
\<close>

theorem filter_alloc_spec:
  "(fst (filter_alloc name_ok module_ok mem name module s) = None
      \<longleftrightarrow> \<not> name_ok \<or> \<not> module_ok \<or> mem = None)
   \<and> (fst (filter_alloc name_ok module_ok mem name module s) = None
      \<longrightarrow> snd (filter_alloc name_ok module_ok mem name module s) = s)
   \<and> (\<forall>f. name_ok \<and> module_ok \<and> mem = Some f \<longrightarrow>
        (\<exists>s'. filter_alloc name_ok module_ok mem name module s = (Some f, s')
           \<and> allFilters s' = Some f
           \<and> defs s' f = Some \<lparr>fd_name = name, fd_module = module, fd_options = None,
                                fd_parameters = None, fd_filter = None, fd_obj = None,
                                fd_next = allFilters s\<rparr>
           \<and> (\<forall>a. a \<noteq> f \<longrightarrow> defs s' a = defs s a)
           \<and> filter_find name s' = Some (Inr (Some f))))"
proof (cases "name_ok \<and> module_ok \<and> mem \<noteq> None")
  case True
  then obtain f where f: "name_ok" "module_ok" "mem = Some f" by auto
  let ?s' = "s\<lparr>defs := (defs s)(f \<mapsto> new_def name module (allFilters s)), allFilters := Some f\<rparr>"
  have "filter_find name ?s' = Some (Inr (Some f))"
    unfolding filter_find_def
    by (subst filter_find_loop.simps) (simp add: new_def_def strcmp_eq_0_iff)
  with f show ?thesis
    by (simp add: filter_alloc_ok new_def_def)
next
  case False
  then have "\<not> name_ok \<or> \<not> module_ok \<or> mem = None" by simp
  from filter_alloc_fail [OF this, of name module s] False show ?thesis by auto
qed

theorem filter_alloc_spec_witness:
  "filter_alloc True True (Some 1) ''x'' ''m'' init_state
     = (Some 1, init_state\<lparr>defs := [1 \<mapsto> \<lparr>fd_name = ''x'', fd_module = ''m'', fd_options = None,
                                   fd_parameters = None, fd_filter = None, fd_obj = None,
                                   fd_next = None\<rparr>],
                    allFilters := Some 1\<rparr>)
   \<and> filter_find ''x'' (snd (filter_alloc True True (Some 1) ''x'' ''m'' init_state)) = Some (Inr (Some 1))
   \<and> filter_alloc True False (Some 1) ''x'' ''m'' init_state = (None, init_state)
   \<and> filter_alloc True True None ''x'' ''m'' init_state = (None, init_state)"
proof -
  have "filter_alloc True True (Some 1) ''x'' ''m'' init_state
     = (Some 1, init_state\<lparr>defs := [1 \<mapsto> \<lparr>fd_name = ''x'', fd_module = ''m'', fd_options = None,
                                   fd_parameters = None, fd_filter = None, fd_obj = None,
                                   fd_next = None\<rparr>],
                    allFilters := Some 1\<rparr>)"
    by (simp add: filter_alloc_def MXS_STRDUP_def init_state_def)
  moreover have "filter_find ''x'' (snd (filter_alloc True True (Some 1) ''x'' ''m'' init_state)) = Some (Inr (Some 1))"
    using filter_alloc_spec [of True True "Some 1" "''x''" "''m''" init_state] by auto
  moreover have "filter_alloc True False (Some 1) ''x'' ''m'' init_state = (None, init_state)"
    using filter_alloc_spec [of True False "Some 1" "''x''" "''m''" init_state]
    by (cases "filter_alloc True False (Some 1) ''x'' ''m'' init_state") simp
  moreover have "filter_alloc True True None ''x'' ''m'' init_state = (None, init_state)"
    using filter_alloc_spec [of True True None "''x''" "''m''" init_state]
    by (cases "filter_alloc True True None ''x'' ''m'' init_state") simp
  ultimately show ?thesis by blast
qed

text \<open>
  Claim C10. The registry does not enforce unique names. When \<open>filter_find\<close> already finds
  a definition \<open>q\<close> under a name, \<open>filter_alloc\<close> with the same name still succeeds (given
  memory, at an address not in use), \<open>filter_find\<close> on that name then returns the new
  definition and not \<open>q\<close>, and \<open>q\<close> is still what the search finds behind the new head.
\<close>

theorem filter_alloc_duplicate_name:
  assumes old: "filter_find name s = Some (Inr (Some q))" and fresh: "f \<notin> dom (defs s)"
  shows "\<exists>s' d. filter_alloc True True (Some f) name module s = (Some f, s')
           \<and> filter_find name s' = Some (Inr (Some f))
           \<and> f \<noteq> q
           \<and> defs s' f = Some d
           \<and> filter_find_loop (defs s') name (fd_next d) = Some (Inr (Some q))"
proof -
  let ?d = "new_def name module (allFilters s) :: 'a FILTER_DEF"
  let ?s' = "s\<lparr>defs := (defs s)(f \<mapsto> ?d), allFilters := Some f\<rparr>"
  from old have old': "filter_find_loop (defs s) name (allFilters s) = Some (Inr (Some q))"
    by (simp add: filter_find_def)
  then have "q \<in> dom (defs s)" by (rule find_loop_dom) simp
  with fresh have "f \<noteq> q" by auto
  moreover have "filter_find name ?s' = Some (Inr (Some f))"
    unfolding filter_find_def
    by (subst filter_find_loop.simps) (simp add: new_def_def strcmp_eq_0_iff)
  moreover from find_loop_frame [OF old' refl fresh]
  have "filter_find_loop (defs ?s') name (fd_next ?d) = Some (Inr (Some q))"
    by (simp add: new_def_def)
  ultimately show ?thesis
    by (simp add: filter_alloc_ok)
qed

theorem filter_alloc_duplicate_name_witness:
  "filter_find ''b'' (register_all three_filters init_state) = Some (Inr (Some 2))
   \<and> 4 \<notin> dom (defs (register_all three_filters init_state))
   \<and> fst (filter_alloc True True (Some 4) ''b'' ''other'' (register_all three_filters init_state)) = Some 4
   \<and> filter_find ''b'' (snd (filter_alloc True True (Some 4) ''b'' ''other'' (register_all three_filters init_state)))
       = Some (Inr (Some 4))"
proof -
  have h1: "filter_find ''b'' (register_all three_filters init_state) = Some (Inr (Some 2))"
    by (simp add: three_filters_def init_state_def filter_alloc_def MXS_STRDUP_def filter_find_def
        filter_find_loop.simps)
  have h2: "4 \<notin> dom (defs (register_all three_filters init_state))"
    by (simp add: three_filters_def init_state_def filter_alloc_def MXS_STRDUP_def)
  from filter_alloc_duplicate_name [OF h1 h2, of "''other''"] h1 h2 show ?thesis
    by auto
qed

subsection \<open>Counting and freeing\<close>

text \<open>Freeing a definition of a well-formed registry takes it out of the list.\<close>

lemma filter_free_head:
  assumes ch: "chain (defs s) (allFilters s) (f # as)"
    and d: "defs s f = Some d"
    and fo: "free_options d = Inr ()" and fp: "filter_free_parameters d = Inr ()"
  shows "filter_free (Some f) s =
           Some (Inr (s\<lparr>allFilters := fd_next d, defs := (defs s)(f := None)\<rparr>))
         \<and> chain ((defs s)(f := None)) (fd_next d) as"
proof -
  from ch d have hd: "allFilters s = Some f" and rest: "chain (defs s) (fd_next d) as"
    by simp_all
  from ch have "distinct (f # as)" by (rule chain_distinct)
  then have "f \<notin> set as" by simp
  then have "chain ((defs s)(f := None)) (fd_next d) as = chain (defs s) (fd_next d) as"
    by (rule chain_upd_other)
  with rest have "chain ((defs s)(f := None)) (fd_next d) as" by simp
  moreover have "filter_unlink f s = Some (Inr (s\<lparr>allFilters := fd_next d\<rparr>))"
    using hd d by (simp add: filter_unlink_def)
  then have "filter_free (Some f) s =
           Some (Inr (s\<lparr>allFilters := fd_next d, defs := (defs s)(f := None)\<rparr>))"
    using d fo fp by (simp add: filter_free_def)
  ultimately show ?thesis by simp
qed

lemma filter_free_inner:
  assumes ch: "chain (defs s) (allFilters s) (xs @ a # f # ys)"
    and d: "defs s f = Some d" and da: "defs s a = Some da"
    and fo: "free_options d = Inr ()" and fp: "filter_free_parameters d = Inr ()"
  shows "filter_free (Some f) s =
           Some (Inr (s\<lparr>defs := ((defs s)(a \<mapsto> da\<lparr>fd_next := fd_next d\<rparr>))(f := None)\<rparr>))
         \<and> chain (((defs s)(a \<mapsto> da\<lparr>fd_next := fd_next d\<rparr>))(f := None)) (allFilters s)
              (xs @ a # ys)"
proof -
  from ch have dist: "distinct (xs @ a # f # ys)" by (rule chain_distinct)
  have "allFilters s \<noteq> Some f"
  proof (cases xs)
    case Nil
    with ch have "allFilters s = Some a" by simp
    with dist show ?thesis by auto
  next
    case (Cons x xs')
    with ch have "allFilters s = Some x" by simp
    with dist Cons show ?thesis by auto
  qed
  moreover from ch dist have "filter_free_loop (defs s) f (allFilters s) = Some (Inr (Some a))"
    by (rule free_loop_pred)
  ultimately have unlink: "filter_unlink f s =
      Some (Inr (s\<lparr>defs := (defs s)(a \<mapsto> da\<lparr>fd_next := fd_next d\<rparr>)\<rparr>))"
    using d da by (simp add: filter_unlink_def)
  from dist have "a \<noteq> f" by auto
  with unlink d fo fp have "filter_free (Some f) s =
      Some (Inr (s\<lparr>defs := ((defs s)(a \<mapsto> da\<lparr>fd_next := fd_next d\<rparr>))(f := None)\<rparr>))"
    by (simp add: filter_free_def)
  moreover from ch dist da d
  have "chain ((defs s)(a \<mapsto> da\<lparr>fd_next := fd_next d\<rparr>)) (allFilters s) (xs @ a # ys)"
    by (rule chain_unlink)
  moreover from dist have "f \<notin> set (xs @ a # ys)" by auto
  then have "chain (((defs s)(a \<mapsto> da\<lparr>fd_next := fd_next d\<rparr>))(f := None)) (allFilters s) (xs @ a # ys)
      = chain ((defs s)(a \<mapsto> da\<lparr>fd_next := fd_next d\<rparr>)) (allFilters s) (xs @ a # ys)"
    by (rule chain_upd_other)
  ultimately show ?thesis by simp
qed

lemma filter_free_chain:
  assumes ch: "chain (defs s) (allFilters s) as" and mem: "f \<in> set as"
    and d: "defs s f = Some d"
    and fo: "free_options d = Inr ()" and fp: "filter_free_parameters d = Inr ()"
  shows "\<exists>s'. filter_free (Some f) s = Some (Inr s')
           \<and> chain (defs s') (allFilters s') (remove1 f as)
           \<and> (\<forall>a. a \<noteq> f \<longrightarrow> map_option fd_name (defs s' a) = map_option fd_name (defs s a))"
proof -
  from ch have dist: "distinct as" by (rule chain_distinct)
  from mem obtain zs ys where as: "as = zs @ f # ys" by (auto simp: in_set_conv_decomp)
  show ?thesis
  proof (cases zs rule: rev_cases)
    case Nil
    with as ch have "chain (defs s) (allFilters s) (f # ys)" by simp
    from filter_free_head [OF this d fo fp] as Nil show ?thesis by auto
  next
    case (snoc xs a)
    with as have as': "as = xs @ a # f # ys" by simp
    with ch have ch': "chain (defs s) (allFilters s) (xs @ a # f # ys)" by simp
    from ch as' have "a \<in> dom (defs s)" using chain_dom by fastforce
    then obtain da where da: "defs s a = Some da" by auto
    from dist as' have "remove1 f as = xs @ a # ys" by (auto simp: remove1_append)
    with filter_free_inner [OF ch' d da fo fp] da show ?thesis by auto
  qed
qed


lemma sint_of_nat_int: "n \<le> 2147483647 \<Longrightarrow> sint (of_nat n :: c_int) = int n"
  by (simp add: signed_of_nat signed_take_bit_int_eq_self)

lemma free_new_def: "free_options (new_def name module nxt) = Inr ()"
  "filter_free_parameters (new_def name module nxt) = Inr ()"
  by (simp_all add: free_options_def filter_free_parameters_def new_def_def)

text \<open>
  Claim C6. Start from an empty registry and register \<open>N\<close> filters with distinct names
  (at the distinct, unused addresses the allocator hands out). Then
  \<open>filter_count_filters\<close> returns \<open>N\<close> as an \<open>int\<close> (which reads back as \<open>N\<close> whenever \<open>N\<close>
  is at most \<open>INT_MAX\<close>), and freeing any one of the filters succeeds, after which the
  count is \<open>N - 1\<close> and \<open>filter_find\<close> on the freed filter's name returns \<open>NULL\<close>.
\<close>

theorem register_count_free:
  assumes empty: "allFilters s = None"
    and names: "distinct (map fst reqs)"
    and addrs: "distinct (map (\<lambda>r. snd (snd r)) reqs)"
    and fresh: "\<forall>r \<in> set reqs. snd (snd r) \<notin> dom (defs s)"
  shows "filter_count_filters (register_all reqs s) = Some (Inr (of_nat (length reqs)))
       \<and> (length reqs \<le> 2147483647 \<longrightarrow>
            (\<exists>c. filter_count_filters (register_all reqs s) = Some (Inr c)
                 \<and> sint c = int (length reqs)))
       \<and> (\<forall>name module f. (name, module, f) \<in> set reqs \<longrightarrow>
            (\<exists>s'. filter_free (Some f) (register_all reqs s) = Some (Inr s')
                 \<and> filter_count_filters s' = Some (Inr (of_nat (length reqs - 1)))
                 \<and> filter_find name s' = Some (Inr None)))"
proof -
  let ?t = "register_all reqs s"
  let ?as = "rev (map (\<lambda>r. snd (snd r)) reqs)"
  from empty have "chain (defs s) (allFilters s) []" by simp
  from register_all_chain [OF this addrs fresh]
  have ch: "chain (defs ?t) (allFilters ?t) ?as" by simp
  have count: "filter_count_filters ?t = Some (Inr (of_nat (length reqs)))"
    using chain_count [OF ch, of 0] by (simp add: filter_count_filters_def)
  have inrange: "length reqs \<le> 2147483647 \<longrightarrow>
            (\<exists>c. filter_count_filters ?t = Some (Inr c) \<and> sint c = int (length reqs))"
    using count by (simp add: sint_of_nat_int)
  have freed: "\<exists>s'. filter_free (Some f) ?t = Some (Inr s')
                 \<and> filter_count_filters s' = Some (Inr (of_nat (length reqs - 1)))
                 \<and> filter_find name s' = Some (Inr None)"
    if r: "(name, module, f) \<in> set reqs" for name module f
  proof -
    from register_all_defs [OF addrs r] obtain nxt
      where d: "defs ?t f = Some (new_def name module nxt)" by blast
    from r have mem: "f \<in> set ?as" by force
    from filter_free_chain [OF ch mem d free_new_def] obtain s'
      where s': "filter_free (Some f) ?t = Some (Inr s')"
        and ch': "chain (defs s') (allFilters s') (remove1 f ?as)"
        and nm: "\<And>a. a \<noteq> f \<Longrightarrow> map_option fd_name (defs s' a) = map_option fd_name (defs ?t a)"
      by blast
    from ch have "distinct ?as" by (rule chain_distinct)
    with mem have len: "length (remove1 f ?as) = length reqs - 1"
      by (simp add: length_remove1)
    have c': "filter_count_filters s' = Some (Inr (of_nat (length reqs - 1)))"
      using chain_count [OF ch', of 0] len by (simp add: filter_count_filters_def)
    have "\<not> (\<exists>d. defs s' a = Some d \<and> fd_name d = name)" if a: "a \<in> set (remove1 f ?as)" for a
    proof
      assume "\<exists>d. defs s' a = Some d \<and> fd_name d = name"
      then obtain d' where d': "defs s' a = Some d'" "fd_name d' = name" by blast
      from a \<open>distinct ?as\<close> have "a \<noteq> f" "a \<in> set ?as" by auto
      then obtain name' module' where r': "(name', module', a) \<in> set reqs" by force
      from register_all_defs [OF addrs r'] obtain nxt'
        where "defs ?t a = Some (new_def name' module' nxt')" by blast
      with nm [OF \<open>a \<noteq> f\<close>] d' have "name' = name" by (simp add: new_def_def)
      with r r' names have "(module', a) = (module, f)"
        using eq_key_imp_eq_value by fast
      with \<open>a \<noteq> f\<close> show False by simp
    qed
    then have "List.find (\<lambda>a. \<exists>d. defs s' a = Some d \<and> fd_name d = name) (remove1 f ?as) = None"
      by (simp add: find_None_iff)
    with chain_find [OF ch', of name] have "filter_find name s' = Some (Inr None)"
      by (simp add: filter_find_def)
    with s' c' show ?thesis by blast
  qed
  from count inrange freed show ?thesis by blast
qed

theorem register_count_free_witness:
  "filter_count_filters (register_all three_filters init_state) = Some (Inr 3)
   \<and> (\<exists>s'. filter_free (Some 2) (register_all three_filters init_state) = Some (Inr s')
          \<and> filter_count_filters s' = Some (Inr 2)
          \<and> filter_find ''b'' s' = Some (Inr None))"
proof -
  have h1: "allFilters init_state = None" by (simp add: init_state_def)
  have h2: "distinct (map fst three_filters)" by (simp add: three_filters_def)
  have h3: "distinct (map (\<lambda>r. snd (snd r)) three_filters)" by (simp add: three_filters_def)
  have h4: "\<forall>r \<in> set three_filters. snd (snd r) \<notin> dom (defs init_state)" by (simp add: init_state_def)
  have h5: "(''b'', ''m'', 2) \<in> set three_filters" by (simp add: three_filters_def)
  have h6: "length three_filters = 3" by (simp add: three_filters_def)
  from register_count_free [OF h1 h2 h3 h4] h5 h6 show ?thesis by fastforce
qed




subsection \<open>Loading\<close>

text \<open>The four ways through \<open>filter_load\<close> for a definition that is in the store.\<close>

lemma filter_load_null: "filter_load lm None s = (Inr False, s)"
  by (simp add: filter_load_def Let_def)

lemma filter_load_loaded:
  "defs s f = Some d \<Longrightarrow> fd_filter d = Some i \<Longrightarrow> filter_load lm (Some f) s = (Inr True, s)"
  by (simp add: filter_load_def Let_def)

lemma filter_load_module_fails:
  assumes "defs s f = Some d" "fd_filter d = None" "fd_obj d = None"
    and "lm (fd_module d) (world s) = (None, w)"
  shows "filter_load lm (Some f) s =
           (Inr False, s\<lparr>defs := (defs s)(f \<mapsto> d), world := w,
                         trace := trace s @ [Call_load_module (fd_module d)]\<rparr>)"
proof -
  from assms(3) have eq: "d\<lparr>fd_obj := None\<rparr> = d" by simp
  from assms have "filter_load lm (Some f) s =
           (Inr False, s\<lparr>defs := (defs s)(f \<mapsto> d\<lparr>fd_obj := None\<rparr>), world := w,
                         trace := trace s @ [Call_load_module (fd_module d)]\<rparr>)"
    by (simp add: filter_load_def Let_def)
  then show ?thesis by (simp only: eq)
qed

lemma filter_load_create:
  assumes "defs s f = Some d" "fd_filter d = None" "fd_obj d = Some ob"
    and "createInstance ob (fd_name d) (fd_options d) (fd_parameters d) (world s) = (inst, w)"
  shows "filter_load lm (Some f) s =
           (Inr (inst \<noteq> None),
            s\<lparr>defs := (defs s)(f \<mapsto> d\<lparr>fd_filter := inst\<rparr>), world := w,
              trace := trace s @ [Call_createInstance (fd_name d) (fd_options d) (fd_parameters d)]\<rparr>)"
  using assms by (simp add: filter_load_def Let_def)

lemma filter_load_module_create:
  assumes "defs s f = Some d" "fd_filter d = None" "fd_obj d = None"
    and "lm (fd_module d) (world s) = (Some ob, w1)"
    and "createInstance ob (fd_name d) (fd_options d) (fd_parameters d) w1 = (inst, w2)"
  shows "filter_load lm (Some f) s =
           (Inr (inst \<noteq> None),
            s\<lparr>defs := (defs s)(f \<mapsto> d\<lparr>fd_obj := Some ob, fd_filter := inst\<rparr>), world := w2,
              trace := trace s @ [Call_load_module (fd_module d),
                                  Call_createInstance (fd_name d) (fd_options d) (fd_parameters d)]\<rparr>)"
  using assms by (simp add: filter_load_def Let_def)


lemma filter_load_calls_loader:
  assumes d: "defs s f = Some d" and nf: "fd_filter d = None" and no: "fd_obj d = None"
  shows "\<exists>b s'. filter_load lm (Some f) s = (Inr b, s')
           \<and> take 1 (drop (length (trace s)) (trace s')) = [Call_load_module (fd_module d)]"
proof -
  obtain obo w1 where l: "lm (fd_module d) (world s) = (obo, w1)"
    by (cases "lm (fd_module d) (world s)")
  show ?thesis
  proof (cases obo)
    case None
    with l have "lm (fd_module d) (world s) = (None, w1)" by simp
    from filter_load_module_fails [where lm = lm, OF d nf no this] show ?thesis by auto
  next
    case (Some ob)
    with l have l': "lm (fd_module d) (world s) = (Some ob, w1)" by simp
    obtain inst w2 where ci:
      "createInstance ob (fd_name d) (fd_options d) (fd_parameters d) w1 = (inst, w2)"
      by (cases "createInstance ob (fd_name d) (fd_options d) (fd_parameters d) w1")
    from filter_load_module_create [where lm = lm, OF d nf no l' ci] show ?thesis by auto
  qed
qed

lemma filter_load_calls_createInstance:
  assumes d: "defs s f = Some d" and nf: "fd_filter d = None" and ob: "fd_obj d = Some ob"
  shows "\<exists>b s'. filter_load lm (Some f) s = (Inr b, s')
           \<and> drop (length (trace s)) (trace s')
               = [Call_createInstance (fd_name d) (fd_options d) (fd_parameters d)]"
proof -
  obtain inst w where ci:
    "createInstance ob (fd_name d) (fd_options d) (fd_parameters d) (world s) = (inst, w)"
    by (cases "createInstance ob (fd_name d) (fd_options d) (fd_parameters d) (world s)")
  from filter_load_create [OF d nf ob ci, of lm] show ?thesis by auto
qed

lemma filter_load_returns_bool:
  assumes d: "defs s f = Some d"
  shows "\<exists>b s'. filter_load lm (Some f) s = (Inr b, s')"
proof (cases "fd_filter d")
  case (Some i)
  with d have "filter_load lm (Some f) s = (Inr True, s)" by (rule filter_load_loaded)
  then show ?thesis by blast
next
  case None
  show ?thesis
  proof (cases "fd_obj d")
    case (Some ob)
    from filter_load_calls_createInstance [OF d None Some, of lm] show ?thesis by blast
  next
    case no: None
    from filter_load_calls_loader [OF d None no, of lm] show ?thesis by blast
  qed
qed

lemma one_filter_def1:
  "defs one_filter 1 = Some (new_def ''f'' ''m'' None)"
  by (simp add: one_filter_def init_state_def filter_alloc_def MXS_STRDUP_def new_def_def)

lemma one_filter_world: "world one_filter = 0" "trace one_filter = []"
  by (simp_all add: one_filter_def init_state_def filter_alloc_def MXS_STRDUP_def)

text \<open>
  Claim C2. \<open>filter_load\<close> is idempotent. On a definition whose instance exists it returns
  true and leaves the whole state as it is, trace and world included: it calls neither the
  loader nor \<open>createInstance\<close>. So when a first call on a definition without an instance
  succeeds, a second call (with any loader) is such a call, the definition holds an
  instance, and over both calls \<open>createInstance\<close> was called exactly once.
\<close>

theorem filter_load_idempotent:
  assumes d: "defs s f = Some d"
  shows "(fd_filter d \<noteq> None \<longrightarrow> filter_load lm (Some f) s = (Inr True, s))
       \<and> (\<forall>s'. fd_filter d = None \<and> filter_load lm (Some f) s = (Inr True, s') \<longrightarrow>
             filter_load lm' (Some f) s' = (Inr True, s')
           \<and> (\<exists>d' inst. defs s' f = Some d' \<and> fd_filter d' = Some inst)
           \<and> length (filter is_createInstance (trace s'))
               = length (filter is_createInstance (trace s)) + 1)"
proof (intro conjI impI allI)
  assume "fd_filter d \<noteq> None"
  then obtain i where "fd_filter d = Some i" by auto
  with d show "filter_load lm (Some f) s = (Inr True, s)" by (rule filter_load_loaded)
next
  fix s'
  assume a: "fd_filter d = None \<and> filter_load lm (Some f) s = (Inr True, s')"
  then have nf: "fd_filter d = None" and res: "filter_load lm (Some f) s = (Inr True, s')"
    by simp_all
  have "\<exists>d' inst. defs s' f = Some d' \<and> fd_filter d' = Some inst
          \<and> length (filter is_createInstance (trace s'))
               = length (filter is_createInstance (trace s)) + 1"
  proof (cases "fd_obj d")
    case (Some ob)
    obtain inst w where ci:
      "createInstance ob (fd_name d) (fd_options d) (fd_parameters d) (world s) = (inst, w)"
      by (cases "createInstance ob (fd_name d) (fd_options d) (fd_parameters d) (world s)")
    from filter_load_create [OF d nf Some ci, of lm] res show ?thesis by auto
  next
    case None
    obtain obo w1 where l: "lm (fd_module d) (world s) = (obo, w1)"
      by (cases "lm (fd_module d) (world s)")
    show ?thesis
    proof (cases obo)
      case None
      with l have "lm (fd_module d) (world s) = (None, w1)" by simp
      from filter_load_module_fails [where lm = lm, OF d nf \<open>fd_obj d = None\<close> this] res show ?thesis by simp
    next
      case (Some ob)
      with l have l': "lm (fd_module d) (world s) = (Some ob, w1)" by simp
      obtain inst w2 where ci:
        "createInstance ob (fd_name d) (fd_options d) (fd_parameters d) w1 = (inst, w2)"
        by (cases "createInstance ob (fd_name d) (fd_options d) (fd_parameters d) w1")
      from filter_load_module_create [where lm = lm, OF d nf \<open>fd_obj d = None\<close> l' ci] res show ?thesis by auto
    qed
  qed
  then obtain d' inst where d': "defs s' f = Some d'" "fd_filter d' = Some inst"
    and n: "length (filter is_createInstance (trace s'))
               = length (filter is_createInstance (trace s)) + 1"
    by blast
  from d' show "filter_load lm' (Some f) s' = (Inr True, s')" by (rule filter_load_loaded)
  from d' show "\<exists>d' inst. defs s' f = Some d' \<and> fd_filter d' = Some inst" by blast
  from n show "length (filter is_createInstance (trace s'))
               = length (filter is_createInstance (trace s)) + 1" .
qed


theorem filter_load_idempotent_witness:
  "filter_load (test_loader [''m'' \<mapsto> test_module (Some 50) (Some 60) True (Some 1006)]) (Some 1) one_filter
     = (Inr True, loaded (test_module (Some 50) (Some 60) True (Some 1006)))
   \<and> filter_load (test_loader Map.empty) (Some 1) (loaded (test_module (Some 50) (Some 60) True (Some 1006)))
     = (Inr True, loaded (test_module (Some 50) (Some 60) True (Some 1006)))
   \<and> length (filter is_createInstance (trace (loaded (test_module (Some 50) (Some 60) True (Some 1006))))) = 1
   \<and> world (loaded (test_module (Some 50) (Some 60) True (Some 1006))) = 2"
proof -
  let ?m = "test_module (Some 50) (Some 60) True (Some 1006)"
  let ?lm = "test_loader [''m'' \<mapsto> ?m]"
  have nf: "fd_filter (new_def ''f'' ''m'' None :: nat FILTER_DEF) = None"
    and no: "fd_obj (new_def ''f'' ''m'' None :: nat FILTER_DEF) = None"
    by (simp_all add: new_def_def)
  have l: "?lm (fd_module (new_def ''f'' ''m'' None :: nat FILTER_DEF)) (world one_filter) = (Some ?m, 1)"
    by (simp add: test_loader_def new_def_def one_filter_world)
  have ci: "createInstance ?m (fd_name (new_def ''f'' ''m'' None :: nat FILTER_DEF))
              (fd_options (new_def ''f'' ''m'' None :: nat FILTER_DEF))
              (fd_parameters (new_def ''f'' ''m'' None :: nat FILTER_DEF)) 1 = (Some 50, 2)"
    by (simp add: test_module_def)
  from filter_load_module_create [where lm = ?lm, OF one_filter_def1 nf no l ci]
  have first: "filter_load ?lm (Some 1) one_filter = (Inr True, loaded ?m)"
    and w: "world (loaded ?m) = 2"
    by (simp_all add: loaded_def)
  from filter_load_idempotent [OF one_filter_def1, of ?lm "test_loader Map.empty"] nf first
  have "filter_load (test_loader Map.empty) (Some 1) (loaded ?m) = (Inr True, loaded ?m)
        \<and> length (filter is_createInstance (trace (loaded ?m))) = 1"
    by (simp add: one_filter_world)
  with first w show ?thesis by simp
qed

text \<open>
  Claim C3. \<open>filter_load\<close> reports failure as the boolean false. On \<open>NULL\<close> it returns
  false; on a definition it always returns a boolean. When the loader finds no module,
  the result is false, the definition is as before (no module table, no instance) and any
  later call starts by calling the loader again. When \<open>createInstance\<close> returns \<open>NULL\<close>
  (on a table loaded before or in this call), the result is false, the definition keeps
  the table and has no instance, and any later call calls \<open>createInstance\<close> again and
  nothing else.
\<close>

theorem filter_load_failure_retry:
  assumes d: "defs s f = Some d" and nf: "fd_filter d = None"
  shows "filter_load lm None s = (Inr False, s)
    \<and> (\<exists>b s'. filter_load lm (Some f) s = (Inr b, s'))
    \<and> (\<forall>w. fd_obj d = None \<and> lm (fd_module d) (world s) = (None, w) \<longrightarrow>
         (\<exists>s'. filter_load lm (Some f) s = (Inr False, s')
            \<and> defs s' f = Some d
            \<and> trace s' = trace s @ [Call_load_module (fd_module d)]
            \<and> (\<forall>lm'. \<exists>b s''. filter_load lm' (Some f) s' = (Inr b, s'')
                   \<and> take 1 (drop (length (trace s')) (trace s''))
                       = [Call_load_module (fd_module d)])))
    \<and> (\<forall>ob w0 w. (fd_obj d = Some ob \<and> w0 = world s
                  \<or> fd_obj d = None \<and> lm (fd_module d) (world s) = (Some ob, w0))
            \<and> createInstance ob (fd_name d) (fd_options d) (fd_parameters d) w0 = (None, w) \<longrightarrow>
         (\<exists>s' d'. filter_load lm (Some f) s = (Inr False, s')
            \<and> defs s' f = Some d' \<and> fd_filter d' = None \<and> fd_obj d' = Some ob
            \<and> (\<forall>lm'. \<exists>b s''. filter_load lm' (Some f) s' = (Inr b, s'')
                   \<and> drop (length (trace s')) (trace s'')
                       = [Call_createInstance (fd_name d) (fd_options d) (fd_parameters d)])))"
proof (intro conjI allI impI)
  show "filter_load lm None s = (Inr False, s)" by (rule filter_load_null)
  show "\<exists>b s'. filter_load lm (Some f) s = (Inr b, s')" using d by (rule filter_load_returns_bool)
next
  fix w
  assume "fd_obj d = None \<and> lm (fd_module d) (world s) = (None, w)"
  then have no: "fd_obj d = None" and l: "lm (fd_module d) (world s) = (None, w)" by simp_all
  let ?s' = "s\<lparr>defs := (defs s)(f \<mapsto> d), world := w,
                trace := trace s @ [Call_load_module (fd_module d)]\<rparr>"
  have res: "filter_load lm (Some f) s = (Inr False, ?s')"
    using d nf no l by (rule filter_load_module_fails)
  have d': "defs ?s' f = Some d" by simp
  have "\<exists>b s''. filter_load lm' (Some f) ?s' = (Inr b, s'')
          \<and> take 1 (drop (length (trace ?s')) (trace s'')) = [Call_load_module (fd_module d)]"
    for lm'
    using d' nf no by (rule filter_load_calls_loader)
  with res d' show "\<exists>s'. filter_load lm (Some f) s = (Inr False, s')
            \<and> defs s' f = Some d
            \<and> trace s' = trace s @ [Call_load_module (fd_module d)]
            \<and> (\<forall>lm'. \<exists>b s''. filter_load lm' (Some f) s' = (Inr b, s'')
                   \<and> take 1 (drop (length (trace s')) (trace s''))
                       = [Call_load_module (fd_module d)])"
    by (intro exI [of _ ?s']) simp
next
  fix ob w0 w
  assume a: "(fd_obj d = Some ob \<and> w0 = world s
                  \<or> fd_obj d = None \<and> lm (fd_module d) (world s) = (Some ob, w0))
            \<and> createInstance ob (fd_name d) (fd_options d) (fd_parameters d) w0 = (None, w)"
  then have ci: "createInstance ob (fd_name d) (fd_options d) (fd_parameters d) w0 = (None, w)"
    by simp
  have "\<exists>s' d'. filter_load lm (Some f) s = (Inr False, s')
          \<and> defs s' f = Some d' \<and> fd_filter d' = None \<and> fd_obj d' = Some ob
          \<and> fd_name d' = fd_name d \<and> fd_options d' = fd_options d
          \<and> fd_parameters d' = fd_parameters d"
  proof (cases "fd_obj d")
    case (Some ob')
    with a have "ob' = ob" "w0 = world s" by auto
    with Some ci filter_load_create [OF d nf, of ob None w lm] show ?thesis by simp
  next
    case None
    with a have l: "lm (fd_module d) (world s) = (Some ob, w0)" by auto
    from filter_load_module_create [where lm = lm, OF d nf None l ci] show ?thesis by simp
  qed
  then obtain s' d' where res: "filter_load lm (Some f) s = (Inr False, s')"
    and d': "defs s' f = Some d'" "fd_filter d' = None" "fd_obj d' = Some ob"
    and same: "fd_name d' = fd_name d" "fd_options d' = fd_options d"
      "fd_parameters d' = fd_parameters d"
    by blast
  have "\<exists>b s''. filter_load lm' (Some f) s' = (Inr b, s'')
          \<and> drop (length (trace s')) (trace s'')
              = [Call_createInstance (fd_name d) (fd_options d) (fd_parameters d)]" for lm'
    using filter_load_calls_createInstance [OF d', of lm'] same by simp
  with res d' show "\<exists>s' d'. filter_load lm (Some f) s = (Inr False, s')
            \<and> defs s' f = Some d' \<and> fd_filter d' = None \<and> fd_obj d' = Some ob
            \<and> (\<forall>lm'. \<exists>b s''. filter_load lm' (Some f) s' = (Inr b, s'')
                   \<and> drop (length (trace s')) (trace s'')
                       = [Call_createInstance (fd_name d) (fd_options d) (fd_parameters d)])"
    by blast
qed


theorem filter_load_failure_retry_witness:
  "filter_load (test_loader Map.empty) (Some 1) one_filter
     = (Inr False, one_filter\<lparr>world := 1, trace := [Call_load_module ''m'']\<rparr>)
   \<and> filter_load (test_loader [''m'' \<mapsto> test_module None (Some 60) True (Some 1006)]) (Some 1)
        (one_filter\<lparr>world := 1, trace := [Call_load_module ''m'']\<rparr>)
     = (Inr False, loaded (test_module None (Some 60) True (Some 1006))\<lparr>world := 3,
          trace := [Call_load_module ''m'', Call_load_module ''m'', Call_createInstance ''f'' None None]\<rparr>)
   \<and> fst (filter_load (test_loader Map.empty) (Some 1)
        (loaded (test_module None (Some 60) True (Some 1006)))) = Inr False
   \<and> trace (snd (filter_load (test_loader Map.empty) (Some 1)
        (loaded (test_module None (Some 60) True (Some 1006)))))
       = [Call_load_module ''m'', Call_createInstance ''f'' None None, Call_createInstance ''f'' None None]"
proof -
  have nf: "fd_filter (new_def ''f'' ''m'' None :: nat FILTER_DEF) = None"
    by (simp add: new_def_def)
  note retry = filter_load_failure_retry [OF one_filter_def1 nf, of "test_loader Map.empty"]
  have "defs one_filter = [1 \<mapsto> new_def ''f'' ''m'' None]"
    by (simp add: one_filter_def init_state_def filter_alloc_def MXS_STRDUP_def new_def_def)
  with retry show ?thesis
    by (simp add: filter_load_def loaded_def test_loader_def test_module_def new_def_def
        one_filter_world Let_def one_filter_def1)
qed


subsection \<open>The chains of a session\<close>

text \<open>
  Claim C4. When the module's \<open>newSession\<close>, called by \<open>filterApply\<close>, returns \<open>NULL\<close>,
  \<open>filterApply\<close> returns \<open>NULL\<close>, the node it allocated is no longer in the store, and
  the only call made is the one to \<open>newSession\<close>: \<open>setDownstream\<close> is not called.
\<close>

theorem filterApply_newSession_fails:
  assumes d: "defs s f = Some d" and ob: "fd_obj d = Some ob"
    and ns: "newSession ob (fd_filter d) session (world s) = (None, w)"
  shows "\<exists>s'. filterApply (Some me) (Some f) session downstream s = (Inr None, s')
           \<and> downstreams s' = (downstreams s)(me := None)
           \<and> trace s' = trace s @ [Call_newSession (fd_filter d) session]
           \<and> world s' = w
           \<and> defs s' = defs s \<and> allFilters s' = allFilters s \<and> upstreams s' = upstreams s"
  using d ob ns by (simp add: filterApply_def Let_def)

theorem filterApply_newSession_fails_witness:
  "filterApply (Some 7) (Some 1) (Some 40) (Some 30)
       (loaded (test_module (Some 50) None True (Some 1006)))
     = (Inr None, loaded (test_module (Some 50) None True (Some 1006))
          \<lparr>world := 3,
           trace := [Call_load_module ''m'', Call_createInstance ''f'' None None,
                     Call_newSession (Some 50) (Some 40)]\<rparr>)
   \<and> filterApply (Some 7) (Some 1) (Some 40) (Some 30)
       (loaded (test_module (Some 50) (Some 60) True (Some 1006)))
     = (Inr (Some 7), loaded (test_module (Some 50) (Some 60) True (Some 1006))
          \<lparr>downstreams := [7 \<mapsto> \<lparr>ds_instance = Some 50, ds_session = Some 60,
                                   ds_routeQuery = Some 1003\<rparr>],
           world := 4,
           trace := [Call_load_module ''m'', Call_createInstance ''f'' None None,
                     Call_newSession (Some 50) (Some 40),
                     Call_setDownstream (Some 50) (Some 60) (Some 30)]\<rparr>)"
proof -
  let ?m = "test_module (Some 50) None True (Some 1006)"
  let ?d = "(new_def ''f'' ''m'' None :: nat FILTER_DEF)\<lparr>fd_obj := Some ?m, fd_filter := Some 50\<rparr>"
  have ld: "loaded m = one_filter\<lparr>defs := [1 \<mapsto> (new_def ''f'' ''m'' None)\<lparr>fd_obj := Some m,
                fd_filter := fst (createInstance m ''f'' None None 1)\<rparr>],
              world := snd (createInstance m ''f'' None None 1),
              trace := [Call_load_module ''m'', Call_createInstance ''f'' None None]\<rparr>" for m
    by (simp add: loaded_def filter_load_def one_filter_def init_state_def filter_alloc_def MXS_STRDUP_def
        test_loader_def new_def_def Let_def split: prod.splits)
  have h1: "defs (loaded ?m) 1 = Some ?d"
    by (simp add: ld test_module_def)
  have h2: "fd_obj ?d = Some ?m" by simp
  have h3: "newSession ?m (fd_filter ?d) (Some 40) (world (loaded ?m)) = (None, 3)"
    by (simp add: ld test_module_def)
  from filterApply_newSession_fails [OF h1 h2 h3, of 7 "Some 30"]
  show ?thesis
    by (simp add: ld filterApply_def test_module_def new_def_def Let_def one_filter_def init_state_def
        filter_alloc_def MXS_STRDUP_def)
qed

text \<open>
  What \<open>filterUpstream\<close> returns when it allocates no node: \<open>upstream\<close> without
  \<open>setUpstream\<close>, and \<open>NULL\<close> (the initial value of \<open>me\<close>) with \<open>setUpstream\<close> but without
  \<open>clientReply\<close>.
\<close>

lemma filterUpstream_gates:
  assumes d: "defs s f = Some d" and ob: "fd_obj d = Some ob"
  shows "(setUpstream ob = None \<longrightarrow>
            filterUpstream mem (Some f) fsession upstream s = (Inr upstream, s))
       \<and> (setUpstream ob \<noteq> None \<and> clientReply ob = None \<longrightarrow>
            filterUpstream mem (Some f) fsession upstream s = (Inr None, s))"
  using d ob by (auto simp: filterUpstream_def)

text \<open>
  Claim C1 says that \<open>filterUpstream\<close> returns \<open>upstream\<close> unchanged both for a module
  without \<open>setUpstream\<close> and for a module with \<open>setUpstream\<close> but without \<open>clientReply\<close>.
  The first holds. In the second case the code returns \<open>NULL\<close>: for the filter at address 1,
  with instance 50, a \<open>setUpstream\<close> and no \<open>clientReply\<close>, the call with \<open>upstream = 30\<close>
  returns \<open>NULL\<close> and not 30.
\<close>

theorem filterUpstream_no_clientReply:
  "filterUpstream (Some 9) (Some 1) (Some 60) (Some 30)
       (loaded (test_module (Some 50) (Some 60) False None))
     = (Inr (Some 30), loaded (test_module (Some 50) (Some 60) False None))
   \<and> filterUpstream (Some 9) (Some 1) (Some 60) (Some 30)
       (loaded (test_module (Some 50) (Some 60) True None))
     = (Inr None, loaded (test_module (Some 50) (Some 60) True None))
   \<and> fst (filterUpstream (Some 9) (Some 1) (Some 60) (Some 30)
       (loaded (test_module (Some 50) (Some 60) True None))) \<noteq> Inr (Some 30)"
proof -
  have ld: "defs (loaded m) 1 = Some ((new_def ''f'' ''m'' None)\<lparr>fd_obj := Some m,
                fd_filter := fst (createInstance m ''f'' None None 1)\<rparr>)" for m
    by (simp add: loaded_def filter_load_def one_filter_def init_state_def filter_alloc_def MXS_STRDUP_def
        test_loader_def new_def_def Let_def split: prod.splits)
  have a: "setUpstream (test_module (Some 50) (Some 60) False None) = None"
    and b: "setUpstream (test_module (Some 50) (Some 60) True None) \<noteq> None
            \<and> clientReply (test_module (Some 50) (Some 60) True None) = None"
    by (simp_all add: test_module_def)
  from filterUpstream_gates [OF ld [of "test_module (Some 50) (Some 60) False None"],
      where ob = "test_module (Some 50) (Some 60) False None" and mem = "Some 9"
        and fsession = "Some 60" and upstream = "Some 30"] a
    filterUpstream_gates [OF ld [of "test_module (Some 50) (Some 60) True None"],
      where ob = "test_module (Some 50) (Some 60) True None" and mem = "Some 9"
        and fsession = "Some 60" and upstream = "Some 30"] b
  show ?thesis by simp
qed


subsection \<open>Options\<close>

text \<open>The scanning loop: what it returns, and when it returns.\<close>

lemma scan_to_null_neg: "sint j < 0 \<Longrightarrow> scan_to_null arr j = Inl OutOfBounds"
  by (subst scan_to_null.simps) simp

lemma scan_to_null_Inr:
  "scan_to_null arr j = Inr i \<Longrightarrow>
   0 \<le> sint i \<and> nat (sint i) < length arr \<and> arr ! nat (sint i) = None
   \<and> (\<forall>k. nat (sint j) \<le> k \<and> k < nat (sint i) \<longrightarrow> arr ! k \<noteq> None)
   \<and> sint j \<le> sint i"
proof (induction arr j rule: scan_to_null.induct)
  case (1 arr j)
  from "1.prems" have "0 \<le> sint j \<and> nat (sint j) < length arr"
    by (subst (asm) scan_to_null.simps) (simp split: if_splits)
  then have inb: "0 \<le> sint j" "nat (sint j) < length arr" by simp_all
  show ?case
  proof (cases "arr ! nat (sint j) = None")
    case True
    with "1.prems" inb have "i = j" by (subst (asm) scan_to_null.simps) simp
    with True inb show ?thesis by auto
  next
    case False
    with "1.prems" inb have rec: "scan_to_null arr (j + 1) = Inr i"
      by (subst (asm) scan_to_null.simps) simp
    have "sint j \<noteq> 2147483647"
    proof
      assume "sint j = 2147483647"
      then have "sint (j + 1) < 0" by (rule sint_succ_wrap)
      then have "scan_to_null arr (j + 1) = Inl OutOfBounds" by (rule scan_to_null_neg)
      with rec show False by simp
    qed
    with sint_less [of j] have "sint j < 2147483647" by simp
    then have succ: "sint (j + 1) = sint j + 1" by (rule sint_succ)
    from "1.IH" [OF _ False rec] inb
    have ih: "0 \<le> sint i" "nat (sint i) < length arr" "arr ! nat (sint i) = None"
      "\<forall>k. nat (sint (j + 1)) \<le> k \<and> k < nat (sint i) \<longrightarrow> arr ! k \<noteq> None"
      "sint (j + 1) \<le> sint i"
      by simp_all
    have "arr ! k \<noteq> None" if "nat (sint j) \<le> k" "k < nat (sint i)" for k
    proof (cases "k = nat (sint j)")
      case True
      with False show ?thesis by simp
    next
      case False
      with that succ inb have "nat (sint (j + 1)) \<le> k" by simp
      with ih(4) that show ?thesis by blast
    qed
    with ih succ show ?thesis by simp
  qed
qed

lemma scan_to_null_forward:
  "n < length arr \<Longrightarrow> arr ! n = None \<Longrightarrow> \<forall>k<n. arr ! k \<noteq> None \<Longrightarrow> n \<le> 2147483647 \<Longrightarrow>
   k \<le> n \<Longrightarrow> scan_to_null arr (of_nat k) = Inr (of_nat n)"
proof (induction "n - k" arbitrary: k)
  case 0
  then have "k = n" by simp
  with 0 show ?case
    by (subst scan_to_null.simps) (simp add: sint_of_nat_int)
next
  case (Suc m)
  then have lt: "k < n" by simp
  with Suc.prems have k: "sint (of_nat k :: c_int) = int k" by (simp add: sint_of_nat_int)
  from Suc.hyps(2) lt have "m = n - Suc k" by simp
  from Suc.hyps(1) [OF this Suc.prems(1-4)] lt
  have rec: "scan_to_null arr (of_nat (Suc k)) = Inr (of_nat n)" by simp
  from Suc.prems lt have "arr ! k \<noteq> None" "k < length arr" by simp_all
  with k have "scan_to_null arr (of_nat k) = scan_to_null arr (of_nat k + 1)"
    by (subst scan_to_null.simps) auto
  also have "of_nat k + 1 = (of_nat (Suc k) :: c_int)" by simp
  finally show ?case using rec by simp
qed


lemma realloc_bytes:
  assumes n: "n \<le> 2147483645"
  shows "unat ((scast (of_nat n + 2 :: c_int) :: size_t) * sizeof_ptr) div unat sizeof_ptr = n + 2"
proof -
  have "(of_nat n + 2 :: c_int) = of_nat (n + 2)" by simp
  moreover from n have "sint (of_nat (n + 2) :: c_int) = int (n + 2)"
    by (intro sint_of_nat_int) simp
  ultimately have "(scast (of_nat n + 2 :: c_int) :: size_t) = of_nat (n + 2)"
    by (simp only: scast_eq of_int_of_nat_eq)
  then have "(scast (of_nat n + 2 :: c_int) :: size_t) * sizeof_ptr = of_nat ((n + 2) * 8)"
    by (simp only: sizeof_ptr_def of_nat_mult of_nat_numeral)
  moreover have "unat (of_nat ((n + 2) * 8) :: size_t) = (n + 2) * 8"
  proof -
    have small: "unat (of_nat m :: size_t) = m" if "m < 2 ^ 64" for m
      using that by (simp add: unat_of_nat)
    from n show ?thesis by (intro small) simp
  qed
  moreover have "unat sizeof_ptr = 8" by (simp add: sizeof_ptr_def)
  ultimately show ?thesis by simp
qed


lemma first_null:
  assumes "n < length arr" "arr ! n = None" "\<forall>k<n. arr ! k \<noteq> None"
  shows "takeWhile non_null arr = take n arr"
  using assms by (intro takeWhile_eq_take_P_nth) (auto simp: non_null_def)

lemma takeWhile_short: "None \<in> set arr \<Longrightarrow> length (takeWhile non_null arr) < length arr"
  by (induction arr) (auto simp: non_null_def)

lemma null_terminated_first:
  assumes "null_terminated arr"
  shows "length (takeWhile non_null arr) < length arr
         \<and> arr ! length (takeWhile non_null arr) = None
         \<and> (\<forall>k < length (takeWhile non_null arr). arr ! k \<noteq> None)"
proof -
  from assms have lt: "length (takeWhile non_null arr) < length arr"
    by (simp add: null_terminated_def takeWhile_short)
  from nth_length_takeWhile [OF lt] have z: "arr ! length (takeWhile non_null arr) = None"
    by (simp add: non_null_def)
  have "arr ! k \<noteq> None" if "k < length (takeWhile non_null arr)" for k
  proof -
    from that have "takeWhile non_null arr ! k \<in> set (takeWhile non_null arr)" by (rule nth_mem)
    then have "non_null (takeWhile non_null arr ! k)" by (auto dest: set_takeWhileD)
    with takeWhile_nth [OF that] show ?thesis by (simp add: non_null_def)
  qed
  with lt z show ?thesis by blast
qed


lemma realloc_array_nth:
  "k < length (realloc_array junk arr b) \<Longrightarrow> k < length arr \<Longrightarrow>
   realloc_array junk arr b ! k = arr ! k"
  by (auto simp: realloc_array_def Let_def nth_append)

lemma array_set_Inr:
  "array_set arr i v = Inr arr' \<Longrightarrow>
   0 \<le> sint i \<and> nat (sint i) < length arr \<and> arr' = arr[nat (sint i) := v]"
  by (auto simp: array_set_def split: if_splits)

lemma filterAddOption_first:
  assumes d: "defs s f = Some d" and none: "fd_options d = None"
  shows "filterAddOption arr_ok str_ok junk (Some f) opt s =
           (if arr_ok \<and> str_ok
            then Inr (s\<lparr>defs := (defs s)(f \<mapsto> d\<lparr>fd_options := Some [Some opt, None]\<rparr>)\<rparr>)
            else Inl Aborted)"
  using d none
  by (simp add: filterAddOption_def MXS_ABORT_IF_NULL_def MXS_STRDUP_A_def calloc_array_def
      array_set_def numeral_2_eq_2)

lemma filterAddOption_array:
  assumes d: "defs s f = Some d" and arr: "fd_options d = Some arr"
    and res: "filterAddOption arr_ok str_ok junk (Some f) opt s = Inr s'"
  shows "\<exists>arr'. s' = s\<lparr>defs := (defs s)(f \<mapsto> d\<lparr>fd_options := Some arr'\<rparr>)\<rparr>
          \<and> null_terminated arr'
          \<and> map the (takeWhile non_null arr') = map the (takeWhile non_null arr) @ [opt]"
proof -
  from res d arr obtain i arr1 arr2 where scan: "scan_to_null arr 0 = Inr i"
    and set1: "array_set (realloc_array junk arr (scast (i + 2) * sizeof_ptr)) i (Some opt) = Inr arr1"
    and set2: "array_set arr1 (i + 1) None = Inr arr2"
    and s': "s' = s\<lparr>defs := (defs s)(f \<mapsto> d\<lparr>fd_options := Some arr2\<rparr>)\<rparr>"
    by (auto simp: filterAddOption_def MXS_ABORT_IF_NULL_def MXS_STRDUP_A_def
        split: sum.splits if_splits)
  let ?arr0 = "realloc_array junk arr (scast (i + 2) * sizeof_ptr)"
  let ?n = "nat (sint i)"
  from scan_to_null_Inr [OF scan]
  have i0: "0 \<le> sint i" and n: "?n < length arr" and z: "arr ! ?n = None"
    and before: "\<forall>k<?n. arr ! k \<noteq> None"
    by simp_all
  from array_set_Inr [OF set1] have n0: "?n < length ?arr0" and arr1: "arr1 = ?arr0[?n := Some opt]"
    by simp_all
  from array_set_Inr [OF set2] have i1: "0 \<le> sint (i + 1)"
    and n1: "nat (sint (i + 1)) < length arr1" and arr2: "arr2 = arr1[nat (sint (i + 1)) := None]"
    by simp_all
  have "sint i \<noteq> 2147483647"
    using sint_succ_wrap [of i] i1 by auto
  with sint_less [of i] have "sint i < 2147483647" by simp
  then have "sint (i + 1) = sint i + 1" by (rule sint_succ)
  with i0 have suc: "nat (sint (i + 1)) = Suc ?n" by simp
  from n1 suc arr1 have len: "Suc ?n < length ?arr0" by simp
  have same: "arr2 ! k = arr ! k" if "k < ?n" for k
  proof -
    from that len n have "k < length ?arr0" "k < length arr" by simp_all
    then have "?arr0 ! k = arr ! k" by (rule realloc_array_nth)
    with that arr1 arr2 suc show ?thesis by simp
  qed
  have at_n: "arr2 ! ?n = Some opt" using arr1 arr2 suc n0 by simp
  have at_suc: "arr2 ! Suc ?n = None" using arr1 arr2 suc len by simp
  have len2: "Suc ?n < length arr2" using arr1 arr2 len by simp
  have "\<forall>k<Suc ?n. arr2 ! k \<noteq> None"
  proof (intro allI impI)
    fix k assume "k < Suc ?n"
    then consider "k < ?n" | "k = ?n" by linarith
    then show "arr2 ! k \<noteq> None"
    proof cases
      case 1
      with same before show ?thesis by simp
    next
      case 2
      with at_n show ?thesis by simp
    qed
  qed
  with len2 at_suc have tw2: "takeWhile non_null arr2 = take (Suc ?n) arr2" by (rule first_null)
  from n z before have tw: "takeWhile non_null arr = take ?n arr" by (rule first_null)
  have "take ?n arr2 = take ?n arr"
    using len2 n same by (intro nth_take_lemma) simp_all
  with len2 at_n have "take (Suc ?n) arr2 = take ?n arr @ [Some opt]"
    by (simp add: take_Suc_conv_app_nth)
  with tw tw2 have "map the (takeWhile non_null arr2) = map the (takeWhile non_null arr) @ [opt]"
    by simp
  moreover from len2 at_suc have "null_terminated arr2"
    unfolding null_terminated_def by (metis nth_mem)
  ultimately show ?thesis using s' by blast
qed

lemma filterAddOption_progress:
  assumes d: "defs s f = Some d" and arr: "fd_options d = Some arr"
    and nt: "null_terminated arr" and small: "length (takeWhile non_null arr) \<le> 2147483645"
  shows "\<exists>s'. filterAddOption True True junk (Some f) opt s = Inr s'"
proof -
  let ?n = "length (takeWhile non_null arr)"
  from null_terminated_first [OF nt] have n: "?n < length arr" and z: "arr ! ?n = None"
    and before: "\<forall>k<?n. arr ! k \<noteq> None" by simp_all
  from small have "?n \<le> 2147483647" by simp
  from scan_to_null_forward [OF n z before this, of 0]
  have scan: "scan_to_null arr 0 = Inr (of_nat ?n)" by simp
  let ?arr0 = "realloc_array junk arr (scast (of_nat ?n + 2 :: c_int) * sizeof_ptr)"
  from realloc_bytes [OF small] n have len0: "length ?arr0 = ?n + 2"
    by (simp add: realloc_array_def Let_def)
  from small have s0: "sint (of_nat ?n :: c_int) = int ?n" by (intro sint_of_nat_int) simp
  from small s0 have "sint (of_nat ?n :: c_int) < 2147483647" by simp
  from sint_succ [OF this] s0 have s1: "sint (of_nat ?n + 1 :: c_int) = int ?n + 1" by simp
  from len0 s0 have set1: "array_set ?arr0 (of_nat ?n) (Some opt) = Inr (?arr0[?n := Some opt])"
    by (simp add: array_set_def)
  from len0 s1 have set2: "array_set (?arr0[?n := Some opt]) (of_nat ?n + 1) None
      = Inr (?arr0[?n := Some opt, Suc ?n := None])"
    by (simp add: array_set_def nat_add_distrib)
  from len0 s0 have get1: "array_get (?arr0[?n := Some opt]) (of_nat ?n) = Inr (Some opt)"
    by (simp add: array_get_def)
  from d arr scan set1 get1 set2 show ?thesis
    by (simp add: filterAddOption_def MXS_ABORT_IF_NULL_def MXS_STRDUP_A_def)
qed


lemma filterAddOption_one:
  assumes d: "defs s f = Some d"
    and res: "filterAddOption arr_ok str_ok junk (Some f) opt s = Inr s'"
  shows "\<exists>arr'. s' = s\<lparr>defs := (defs s)(f \<mapsto> d\<lparr>fd_options := Some arr'\<rparr>)\<rparr>
          \<and> null_terminated arr'
          \<and> option_strings (Some arr') = option_strings (fd_options d) @ [opt]"
proof (cases "fd_options d")
  case None
  from res filterAddOption_first [OF d None, of arr_ok str_ok junk opt]
  have "s' = s\<lparr>defs := (defs s)(f \<mapsto> d\<lparr>fd_options := Some [Some opt, None]\<rparr>)\<rparr>"
    by (simp split: if_splits)
  moreover have "null_terminated [Some opt, None]" by (simp add: null_terminated_def)
  moreover have "option_strings (Some [Some opt, None]) = option_strings (fd_options d) @ [opt]"
    using None by (simp add: option_strings_def non_null_def)
  ultimately show ?thesis by blast
next
  case (Some arr)
  from filterAddOption_array [OF d Some res] Some show ?thesis
    by (simp add: option_strings_def)
qed

lemma filterAddOption_can:
  assumes d: "defs s f = Some d" and ok: "options_ok (fd_options d)"
    and small: "length (option_strings (fd_options d)) \<le> 2147483645"
  shows "\<exists>s'. filterAddOption True True junk (Some f) opt s = Inr s'"
proof (cases "fd_options d")
  case None
  from filterAddOption_first [OF d None, of True True junk opt] show ?thesis by simp
next
  case (Some arr)
  with ok small have "null_terminated arr" "length (takeWhile non_null arr) \<le> 2147483645"
    by (simp_all add: options_ok_def option_strings_def)
  with d Some show ?thesis by (rule filterAddOption_progress)
qed

lemma add_options_append:
  "add_options (xs @ ys) fp s =
     (case add_options xs fp s of Inl e \<Rightarrow> Inl e | Inr t \<Rightarrow> add_options ys fp t)"
proof (induction xs arbitrary: s)
  case Nil
  show ?case by simp
next
  case (Cons c xs)
  obtain a b junk opt where c: "c = (a, b, junk, opt)" by (cases c)
  show ?case using Cons.IH by (simp add: c split: sum.splits)
qed

lemma add_options_result:
  "defs s f = Some d \<Longrightarrow> add_options calls (Some f) s = Inr s' \<Longrightarrow>
   \<exists>d'. defs s' f = Some d'
      \<and> option_strings (fd_options d')
          = option_strings (fd_options d) @ map (\<lambda>c. snd (snd (snd c))) calls
      \<and> (calls \<noteq> [] \<longrightarrow> (\<exists>arr. fd_options d' = Some arr \<and> null_terminated arr))
      \<and> (\<forall>a. a \<noteq> f \<longrightarrow> defs s' a = defs s a)"
proof (induction calls arbitrary: s d)
  case Nil
  then show ?case by simp
next
  case (Cons c calls)
  obtain a b junk opt where c: "c = (a, b, junk, opt)" by (cases c)
  from Cons.prems(2) c obtain s1 where one: "filterAddOption a b junk (Some f) opt s = Inr s1"
    and rest: "add_options calls (Some f) s1 = Inr s'"
    by (auto split: sum.splits)
  from filterAddOption_one [OF Cons.prems(1) one] obtain arr1
    where s1: "s1 = s\<lparr>defs := (defs s)(f \<mapsto> d\<lparr>fd_options := Some arr1\<rparr>)\<rparr>"
      and nt: "null_terminated arr1"
      and os: "option_strings (Some arr1) = option_strings (fd_options d) @ [opt]"
    by blast
  let ?d1 = "d\<lparr>fd_options := Some arr1\<rparr>"
  from s1 have d1: "defs s1 f = Some ?d1" by simp
  from Cons.IH [OF d1 rest] obtain d' where d': "defs s' f = Some d'"
    and os': "option_strings (fd_options d')
          = option_strings (fd_options ?d1) @ map (\<lambda>c. snd (snd (snd c))) calls"
    and nt': "calls \<noteq> [] \<longrightarrow> (\<exists>arr. fd_options d' = Some arr \<and> null_terminated arr)"
    and other: "\<forall>a. a \<noteq> f \<longrightarrow> defs s' a = defs s1 a"
    by blast
  have "\<exists>arr. fd_options d' = Some arr \<and> null_terminated arr"
  proof (cases calls)
    case Nil
    with rest d1 d' have "d' = ?d1" by simp
    with nt show ?thesis by simp
  next
    case (Cons c' cs)
    with nt' show ?thesis by simp
  qed
  moreover from os os' c have "option_strings (fd_options d')
          = option_strings (fd_options d) @ map (\<lambda>c. snd (snd (snd c))) (c # calls)"
    by simp
  moreover from other s1 have "\<forall>a. a \<noteq> f \<longrightarrow> defs s' a = defs s a" by simp
  ultimately show ?case using d' by blast
qed

lemma add_options_can:
  "defs s f = Some d \<Longrightarrow> options_ok (fd_options d) \<Longrightarrow>
   \<forall>c \<in> set calls. fst c \<and> fst (snd c) \<Longrightarrow>
   length (option_strings (fd_options d)) + length calls \<le> 2147483646 \<Longrightarrow>
   \<exists>s'. add_options calls (Some f) s = Inr s'"
proof (induction calls arbitrary: s d)
  case Nil
  show ?case by simp
next
  case (Cons c calls)
  obtain junk opt where c: "c = (True, True, junk, opt)"
    using Cons.prems(3) by (cases c) auto
  from Cons.prems(4) have "length (option_strings (fd_options d)) \<le> 2147483645" by simp
  from filterAddOption_can [OF Cons.prems(1,2) this, of junk opt]
  obtain s1 where one: "filterAddOption True True junk (Some f) opt s = Inr s1" by blast
  from filterAddOption_one [OF Cons.prems(1) one] obtain arr1
    where s1: "s1 = s\<lparr>defs := (defs s)(f \<mapsto> d\<lparr>fd_options := Some arr1\<rparr>)\<rparr>"
      and nt: "null_terminated arr1"
      and os: "option_strings (Some arr1) = option_strings (fd_options d) @ [opt]"
    by blast
  let ?d1 = "d\<lparr>fd_options := Some arr1\<rparr>"
  from s1 have d1: "defs s1 f = Some ?d1" by simp
  from nt have ok1: "options_ok (fd_options ?d1)" by (simp add: options_ok_def)
  from Cons.prems(3) have all: "\<forall>c \<in> set calls. fst c \<and> fst (snd c)" by simp
  from os Cons.prems(4) have "length (option_strings (fd_options ?d1)) + length calls \<le> 2147483646"
    by simp
  from Cons.IH [OF d1 ok1 all this] one c show ?case by simp
qed

lemma three_eval:
  "(case add_options three_options (Some 1) one_filter of
      Inl e \<Rightarrow> None | Inr s \<Rightarrow> map_option fd_options (defs s 1))
   = Some (Some [Some ''a'', Some ''b'', Some ''c'', None])"
  by code_simp

lemma abort_eval:
  "(case add_options [(True, False, None, ''d'')] (Some 1) one_filter of
      Inl e \<Rightarrow> Some e | Inr s \<Rightarrow> None) = Some Aborted"
  by code_simp

text \<open>
  Claim C7. Take any definition and any sequence of calls of \<open>filterAddOption\<close> on it that
  all return. After each of them (after the first \<open>k\<close> calls, for every \<open>k\<close>) the options
  of the definition are those it had before followed by the options of the calls made so
  far, in order, so that their number has grown by \<open>k\<close>: no option is lost. From the
  first call on the array is \<open>NULL\<close>-terminated. The calls do all return when the array
  was \<open>NULL\<close> or \<open>NULL\<close>-terminated at the start, every allocation succeeds and the number
  of options stays within what the \<open>int\<close> index \<open>i\<close> and \<open>i + 2\<close> can hold; a failed
  allocation aborts the program.
\<close>

theorem filterAddOption_appends:
  assumes d: "defs s f = Some d"
  shows "(\<forall>s' k. add_options calls (Some f) s = Inr s' \<and> k \<le> length calls \<longrightarrow>
           (\<exists>sk dk. add_options (take k calls) (Some f) s = Inr sk \<and> defs sk f = Some dk
               \<and> option_strings (fd_options dk)
                   = option_strings (fd_options d) @ map (\<lambda>c. snd (snd (snd c))) (take k calls)
               \<and> length (option_strings (fd_options dk))
                   = length (option_strings (fd_options d)) + k
               \<and> (0 < k \<longrightarrow> (\<exists>arr. fd_options dk = Some arr \<and> null_terminated arr))))
       \<and> (options_ok (fd_options d) \<and> (\<forall>c \<in> set calls. fst c \<and> fst (snd c))
            \<and> length (option_strings (fd_options d)) + length calls \<le> 2147483646
            \<longrightarrow> (\<exists>s'. add_options calls (Some f) s = Inr s'))"
proof (intro conjI allI impI)
  fix s' k
  assume a: "add_options calls (Some f) s = Inr s' \<and> k \<le> length calls"
  have "add_options (take k calls @ drop k calls) (Some f) s =
          (case add_options (take k calls) (Some f) s of
             Inl e \<Rightarrow> Inl e | Inr t \<Rightarrow> add_options (drop k calls) (Some f) t)"
    by (rule add_options_append)
  with a have "(case add_options (take k calls) (Some f) s of
             Inl e \<Rightarrow> Inl e | Inr t \<Rightarrow> add_options (drop k calls) (Some f) t) = Inr s'"
    by simp
  then obtain sk where sk: "add_options (take k calls) (Some f) s = Inr sk"
    by (cases "add_options (take k calls) (Some f) s") auto
  from add_options_result [OF d sk] obtain dk where dk: "defs sk f = Some dk"
    and os: "option_strings (fd_options dk)
              = option_strings (fd_options d) @ map (\<lambda>c. snd (snd (snd c))) (take k calls)"
    and nt: "take k calls \<noteq> [] \<longrightarrow> (\<exists>arr. fd_options dk = Some arr \<and> null_terminated arr)"
    by blast
  from os a have "length (option_strings (fd_options dk))
                   = length (option_strings (fd_options d)) + k" by simp
  moreover from nt a have "0 < k \<longrightarrow> (\<exists>arr. fd_options dk = Some arr \<and> null_terminated arr)"
    by auto
  ultimately show "\<exists>sk dk. add_options (take k calls) (Some f) s = Inr sk \<and> defs sk f = Some dk
               \<and> option_strings (fd_options dk)
                   = option_strings (fd_options d) @ map (\<lambda>c. snd (snd (snd c))) (take k calls)
               \<and> length (option_strings (fd_options dk))
                   = length (option_strings (fd_options d)) + k
               \<and> (0 < k \<longrightarrow> (\<exists>arr. fd_options dk = Some arr \<and> null_terminated arr))"
    using sk dk os by blast
next
  assume "options_ok (fd_options d) \<and> (\<forall>c \<in> set calls. fst c \<and> fst (snd c))
            \<and> length (option_strings (fd_options d)) + length calls \<le> 2147483646"
  with d show "\<exists>s'. add_options calls (Some f) s = Inr s'"
    by (intro add_options_can [where d = d]) simp_all
qed


theorem filterAddOption_appends_witness:
  "(\<exists>s' d'. add_options three_options (Some 1) one_filter = Inr s' \<and> defs s' 1 = Some d'
       \<and> option_strings (fd_options d') = [''a'', ''b'', ''c'']
       \<and> length (option_strings (fd_options d')) = 3
       \<and> (\<exists>arr. fd_options d' = Some arr \<and> null_terminated arr))
   \<and> (case add_options three_options (Some 1) one_filter of
        Inl e \<Rightarrow> None | Inr s \<Rightarrow> map_option fd_options (defs s 1))
      = Some (Some [Some ''a'', Some ''b'', Some ''c'', None])"
proof -
  let ?d = "new_def ''f'' ''m'' None :: nat FILTER_DEF"
  note t = filterAddOption_appends [OF one_filter_def1, of three_options]
  have ok: "options_ok (fd_options ?d)" by (simp add: options_ok_def new_def_def)
  have all: "\<forall>c \<in> set three_options. fst c \<and> fst (snd c)" by (simp add: three_options_def)
  have len: "length (option_strings (fd_options ?d)) + length three_options \<le> 2147483646"
    by (simp add: option_strings_def new_def_def three_options_def)
  from t ok all len obtain s' where s': "add_options three_options (Some 1) one_filter = Inr s'"
    by blast
  have k: "(3::nat) \<le> length three_options" by (simp add: three_options_def)
  from t s' k obtain sk dk where "add_options (take 3 three_options) (Some 1) one_filter = Inr sk"
    "defs sk 1 = Some dk"
    "option_strings (fd_options dk)
       = option_strings (fd_options ?d) @ map (\<lambda>c. snd (snd (snd c))) (take 3 three_options)"
    "length (option_strings (fd_options dk)) = length (option_strings (fd_options ?d)) + 3"
    "0 < (3::nat) \<longrightarrow> (\<exists>arr. fd_options dk = Some arr \<and> null_terminated arr)"
    by blast
  then have "\<exists>s' d'. add_options three_options (Some 1) one_filter = Inr s' \<and> defs s' 1 = Some d'
       \<and> option_strings (fd_options d') = [''a'', ''b'', ''c'']
       \<and> length (option_strings (fd_options d')) = 3
       \<and> (\<exists>arr. fd_options d' = Some arr \<and> null_terminated arr)"
    by (simp add: three_options_def option_strings_def new_def_def)
  with three_eval show ?thesis by blast
qed


end
